theory Spec2Isabelle
  imports Main "HOL-Library.Sublist"
begin

section \<open>The fragment of Python's \<open>re\<close> that the analyzer's patterns use\<close>

text \<open>
  The analyzer (\<open>gas-analyzer.py\<close>) works on the source text with \<open>re.findall\<close> and
  \<open>re.search\<close> only. The text is a list of characters; a \<^typ>\<open>char\<close> stands for a code
  point below 256. The classes \<open>\w\<close>, \<open>\s\<close> and \<open>\d\<close> are the ones Python's \<open>re\<close> gives
  a \<open>str\<close> pattern on these code points.
\<close>

definition is_digit :: "char \<Rightarrow> bool" where
  "is_digit c = (let n = (of_char c :: nat) in 48 \<le> n \<and> n \<le> 57)"

definition is_space :: "char \<Rightarrow> bool" where
  "is_space c = (let n = (of_char c :: nat) in
     (9 \<le> n \<and> n \<le> 13) \<or> (28 \<le> n \<and> n \<le> 32) \<or> n = 133 \<or> n = 160)"

definition is_word :: "char \<Rightarrow> bool" where
  "is_word c = (let n = (of_char c :: nat) in
     (48 \<le> n \<and> n \<le> 57) \<or> (65 \<le> n \<and> n \<le> 90) \<or> n = 95 \<or> (97 \<le> n \<and> n \<le> 122) \<or>
     n = 170 \<or> n = 178 \<or> n = 179 \<or> n = 181 \<or> n = 185 \<or> n = 186 \<or>
     (188 \<le> n \<and> n \<le> 190) \<or> (192 \<le> n \<and> n \<le> 214) \<or> (216 \<le> n \<and> n \<le> 246) \<or>
     (248 \<le> n \<and> n \<le> 255))"

definition is_hex :: "char \<Rightarrow> bool" where
  "is_hex c = (let n = (of_char c :: nat) in
     (48 \<le> n \<and> n \<le> 57) \<or> (97 \<le> n \<and> n \<le> 102) \<or> (65 \<le> n \<and> n \<le> 70))"

text \<open>One-character items: a literal, \<open>[^c]\<close>, \<open>\w\<close>, \<open>\s\<close>, \<open>\d\<close>, \<open>[0-9a-fA-F]\<close>.\<close>

datatype cset = Lit char | Not char | Word | Space | Digit | Hex

fun in_cset :: "cset \<Rightarrow> char \<Rightarrow> bool" where
  "in_cset (Lit c) x = (x = c)"
| "in_cset (Not c) x = (x \<noteq> c)"
| "in_cset Word x = is_word x"
| "in_cset Space x = is_space x"
| "in_cset Digit x = is_digit x"
| "in_cset Hex x = is_hex x"

text \<open>
  Every \<open>*\<close> and \<open>+\<close> of the program's patterns stands on a one-character item, and every
  \<open>?\<close> on a group; \<open>Bol\<close> is \<open>^\<close> under \<open>re.MULTILINE\<close>, \<open>Wordb\<close> is \<open>\b\<close>, \<open>NotAhead\<close> is
  \<open>(?!...)\<close>, \<open>Grp n\<close> is the \<open>n\<close>-th capturing group.
\<close>

datatype regex =
    Eps
  | Atom cset
  | Seq regex regex
  | Alt regex regex
  | Opt regex
  | Star cset
  | Plus cset
  | Bol
  | Wordb
  | NotAhead regex
  | Grp nat regex

text \<open>
  A matcher state: the groups captured so far, the text before the position (reversed, so
  that its head is the previous character) and the text from the position on.
\<close>

type_synonym groups = "(nat \<times> string) list"
type_synonym mstate = "groups \<times> string \<times> string"

definition group :: "groups \<Rightarrow> nat \<Rightarrow> string" where
  "group g n = (case map_of g n of None \<Rightarrow> [] | Some s \<Rightarrow> s)"

text \<open>
  Greedy repetition of a one-character item: take the item as long as it matches, then try
  the continuation, giving characters back one at a time when the continuation fails.
\<close>

fun star :: "cset \<Rightarrow> (mstate \<Rightarrow> mstate option) \<Rightarrow> groups \<Rightarrow> string \<Rightarrow> string \<Rightarrow> mstate option" where
  "star c k g pre [] = k (g, pre, [])"
| "star c k g pre (x # xs) =
     (if in_cset c x
      then (case star c k g (x # pre) xs of
              Some r \<Rightarrow> Some r
            | None \<Rightarrow> k (g, pre, x # xs))
      else k (g, pre, x # xs))"

definition at_boundary :: "string \<Rightarrow> string \<Rightarrow> bool" where
  "at_boundary pre rest =
     ((case pre of [] \<Rightarrow> False | p # _ \<Rightarrow> is_word p) \<noteq>
      (case rest of [] \<Rightarrow> False | x # _ \<Rightarrow> is_word x))"

text \<open>
  The backtracking matcher, in continuation-passing style: \<open>m r k st\<close> matches \<open>r\<close> at \<open>st\<close>
  and hands the state after the match to \<open>k\<close>; when \<open>k\<close> fails, the next alternative of
  \<open>r\<close> is tried, in the order of Python's engine (left alternative first, greedy
  quantifiers).
\<close>

fun m :: "regex \<Rightarrow> (mstate \<Rightarrow> mstate option) \<Rightarrow> mstate \<Rightarrow> mstate option" where
  "m Eps k st = k st"
| "m (Atom c) k (g, pre, rest) =
     (case rest of
        [] \<Rightarrow> None
      | x # xs \<Rightarrow> if in_cset c x then k (g, x # pre, xs) else None)"
| "m (Seq a b) k st = m a (m b k) st"
| "m (Alt a b) k st = (case m a k st of Some r \<Rightarrow> Some r | None \<Rightarrow> m b k st)"
| "m (Opt a) k st = (case m a k st of Some r \<Rightarrow> Some r | None \<Rightarrow> k st)"
| "m (Star c) k (g, pre, rest) = star c k g pre rest"
| "m (Plus c) k (g, pre, rest) =
     (case rest of
        [] \<Rightarrow> None
      | x # xs \<Rightarrow> if in_cset c x then star c k g (x # pre) xs else None)"
| "m Bol k (g, pre, rest) =
     (if pre = [] \<or> hd pre = CHR 0x0A then k (g, pre, rest) else None)"
| "m Wordb k (g, pre, rest) = (if at_boundary pre rest then k (g, pre, rest) else None)"
| "m (NotAhead a) k st = (case m a Some st of None \<Rightarrow> k st | Some _ \<Rightarrow> None)"
| "m (Grp n a) k (g, pre, rest) =
     m a (\<lambda>(g', pre', rest'). k ((n, rev (take (length pre' - length pre) pre')) # g', pre', rest'))
       (g, pre, rest)"

text \<open>Patterns are written as lists of items and literal words.\<close>

fun lit :: "string \<Rightarrow> regex" where
  "lit [] = Eps"
| "lit [c] = Atom (Lit c)"
| "lit (c # cs) = Seq (Atom (Lit c)) (lit cs)"

fun seq :: "regex list \<Rightarrow> regex" where
  "seq [] = Eps"
| "seq [r] = r"
| "seq (r # rs) = Seq r (seq rs)"

fun alts :: "regex list \<Rightarrow> regex" where
  "alts [] = Eps"
| "alts [r] = r"
| "alts (r # rs) = Alt r (alts rs)"

text \<open>
  \<open>re.finditer\<close>: scan from the left; after a match go on behind it, otherwise one
  character further. The result lists the groups of each match. No pattern of the
  program matches the empty string; for an empty match the scan moves one character on.
\<close>

function finditer :: "regex \<Rightarrow> string \<Rightarrow> string \<Rightarrow> groups list" where
  "finditer r pre rest =
     (case m r Some ([], pre, rest) of
        Some (g, pre', rest') \<Rightarrow>
          if length rest' < length rest then g # finditer r pre' rest'
          else g # (case rest of [] \<Rightarrow> [] | x # xs \<Rightarrow> finditer r (x # pre) xs)
      | None \<Rightarrow> (case rest of [] \<Rightarrow> [] | x # xs \<Rightarrow> finditer r (x # pre) xs))"
  by pat_completeness auto
termination
  by (relation "measure (\<lambda>(r, pre, rest). length rest)") auto

declare finditer.simps [simp del]

definition findall :: "regex \<Rightarrow> string \<Rightarrow> groups list" where
  "findall r code = finditer r [] code"

text \<open>\<open>re.search\<close>, used only as a truth value: is there a match at some position?\<close>

fun search_from :: "regex \<Rightarrow> string \<Rightarrow> string \<Rightarrow> bool" where
  "search_from r pre [] = (m r Some ([], pre, []) \<noteq> None)"
| "search_from r pre (x # xs) =
     (m r Some ([], pre, x # xs) \<noteq> None \<or> search_from r (x # pre) xs)"

definition search :: "regex \<Rightarrow> string \<Rightarrow> bool" where
  "search r s = search_from r [] s"


section \<open>The patterns of the detectors\<close>

text \<open>Each pattern is named after the variable of the source that receives its matches.\<close>

definition visibility_ws :: regex where
  \<comment> \<open>\<open>(?:public\s+|private\s+|internal\s+)?\<close>\<close>
  "visibility_ws = Opt (alts [Seq (lit ''public'') (Plus Space),
                              Seq (lit ''private'') (Plus Space),
                              Seq (lit ''internal'') (Plus Space)])"

definition storage_vars_re :: regex where
  \<comment> \<open>\<open>^\s*(uint\d*|int\d*|bool|address|bytes\d*|string)\s+(?:public\s+|private\s+|internal\s+)?(\w+)\<close>,
      \<open>re.MULTILINE\<close>\<close>
  "storage_vars_re = seq [Bol, Star Space,
     Grp 1 (alts [Seq (lit ''uint'') (Star Digit), Seq (lit ''int'') (Star Digit), lit ''bool'',
                  lit ''address'', Seq (lit ''bytes'') (Star Digit), lit ''string'']),
     Plus Space, visibility_ws, Grp 2 (Plus Word)]"

definition storage_writes_re :: regex where
  \<comment> \<open>\<open>\w+\s*=\s*[^=]\<close>\<close>
  "storage_writes_re = seq [Plus Word, Star Space, Atom (Lit CHR ''=''), Star Space,
                            Atom (Not CHR ''='')]"

definition for_loops_re :: regex where
  \<comment> \<open>\<open>for\s*\([^)]+\)\s*{([^}]+)}\<close>\<close>
  "for_loops_re = seq [lit ''for'', Star Space, Atom (Lit CHR ''(''), Plus (Not CHR '')''),
     Atom (Lit CHR '')''), Star Space, Atom (Lit CHR ''{''), Grp 1 (Plus (Not CHR ''}'')),
     Atom (Lit CHR ''}'')]"

definition while_loops_re :: regex where
  \<comment> \<open>\<open>while\s*\([^)]+\)\s*{([^}]+)}\<close>\<close>
  "while_loops_re = seq [lit ''while'', Star Space, Atom (Lit CHR ''(''), Plus (Not CHR '')''),
     Atom (Lit CHR '')''), Star Space, Atom (Lit CHR ''{''), Grp 1 (Plus (Not CHR ''}'')),
     Atom (Lit CHR ''}'')]"

definition index_write_re :: regex where
  \<comment> \<open>\<open>\w+\s*\[\s*\w+\s*\]\s*=\<close>: the storage operation looked for in a loop, and the
      mapping write\<close>
  "index_write_re = seq [Plus Word, Star Space, Atom (Lit CHR ''[''), Star Space, Plus Word,
     Star Space, Atom (Lit CHR '']''), Star Space, Atom (Lit CHR ''='')]"

definition external_calls_re :: regex where
  \<comment> \<open>\<open>\w+\.\w+\s*\(\<close>\<close>
  "external_calls_re = seq [Plus Word, Atom (Lit CHR ''.''), Plus Word, Star Space,
     Atom (Lit CHR ''('')]"

definition functions_re :: regex where
  \<comment> \<open>\<open>function\s+(\w+)\s*\([^)]*\)\s*(external|public|internal|private)?\s*(view|pure|payable)?\s*(?:returns\s*\([^)]*\))?\s*{\<close>\<close>
  "functions_re = seq [lit ''function'', Plus Space, Grp 1 (Plus Word), Star Space,
     Atom (Lit CHR ''(''), Star (Not CHR '')''), Atom (Lit CHR '')''), Star Space,
     Opt (Grp 2 (alts [lit ''external'', lit ''public'', lit ''internal'', lit ''private''])),
     Star Space,
     Opt (Grp 3 (alts [lit ''view'', lit ''pure'', lit ''payable''])),
     Star Space,
     Opt (seq [lit ''returns'', Star Space, Atom (Lit CHR ''(''), Star (Not CHR '')''),
               Atom (Lit CHR '')'')]),
     Star Space, Atom (Lit CHR ''{'')]"

definition delegate_calls_re :: regex where
  \<comment> \<open>\<open>delegatecall\s*\(\<close>\<close>
  "delegate_calls_re = seq [lit ''delegatecall'', Star Space, Atom (Lit CHR ''('')]"

definition uint256_re :: regex where
  \<comment> \<open>\<open>\buint256\b\<close>\<close>
  "uint256_re = seq [Wordb, lit ''uint256'', Wordb]"

definition uint128_re :: regex where
  "uint128_re = seq [Wordb, lit ''uint128'', Wordb]"

definition uint64_re :: regex where
  "uint64_re = seq [Wordb, lit ''uint64'', Wordb]"

definition uint32_re :: regex where
  "uint32_re = seq [Wordb, lit ''uint32'', Wordb]"

definition uint_re :: regex where
  \<comment> \<open>\<open>\buint\b(?!\d)\<close>\<close>
  "uint_re = seq [Wordb, lit ''uint'', Wordb, NotAhead (Atom Digit)]"

definition string_re :: regex where
  \<comment> \<open>\<open>\bstring\b\<close>\<close>
  "string_re = seq [Wordb, lit ''string'', Wordb]"

definition bytes_re :: regex where
  \<comment> \<open>\<open>\bbytes\d*\b\<close>\<close>
  "bytes_re = seq [Wordb, lit ''bytes'', Star Digit, Wordb]"

definition arrays_re :: regex where
  \<comment> \<open>\<open>(\w+(?:\[\])?\s+(?:public\s+|private\s+|internal\s+)?(\w+)(?:\[\])?)\<close>\<close>
  "arrays_re = Grp 1 (seq [Plus Word, Opt (lit ''[]''), Plus Space, visibility_ws,
     Grp 2 (Plus Word), Opt (lit ''[]'')])"

definition array_push_re :: regex where
  \<comment> \<open>\<open>\.push\s*\(\<close>\<close>
  "array_push_re = seq [lit ''.push'', Star Space, Atom (Lit CHR ''('')]"

definition array_pop_re :: regex where
  \<comment> \<open>\<open>\.pop\s*\(\<close>\<close>
  "array_pop_re = seq [lit ''.pop'', Star Space, Atom (Lit CHR ''('')]"

definition array_access_re :: regex where
  \<comment> \<open>\<open>\w+\s*\[\s*\d+\s*\]\<close>\<close>
  "array_access_re = seq [Plus Word, Star Space, Atom (Lit CHR ''[''), Star Space, Plus Digit,
     Star Space, Atom (Lit CHR '']'')]"

definition mappings_re :: regex where
  \<comment> \<open>\<open>mapping\s*\([^)]+\)\s*(?:public\s+|private\s+|internal\s+)?(\w+)\<close>\<close>
  "mappings_re = seq [lit ''mapping'', Star Space, Atom (Lit CHR ''(''), Plus (Not CHR '')''),
     Atom (Lit CHR '')''), Star Space, visibility_ws, Grp 1 (Plus Word)]"

definition mapping_reads_re :: regex where
  \<comment> \<open>\<open>\w+\s*\[\s*\w+\s*\](?!\s*=)\<close>\<close>
  "mapping_reads_re = seq [Plus Word, Star Space, Atom (Lit CHR ''[''), Star Space, Plus Word,
     Star Space, Atom (Lit CHR '']''), NotAhead (Seq (Star Space) (Atom (Lit CHR ''='')))]"

definition variable_assignments_re :: regex where
  \<comment> \<open>\<open>(\w+)\s*=\s*([^;]+);\<close>\<close>
  "variable_assignments_re = seq [Grp 1 (Plus Word), Star Space, Atom (Lit CHR ''=''),
     Star Space, Grp 2 (Plus (Not CHR '';'')), Atom (Lit CHR '';'')]"

definition literal_re :: regex where
  \<comment> \<open>\<open>\b(0x[0-9a-fA-F]+|\d+|true|false|"[^"]*")\b\<close>\<close>
  "literal_re = seq [Wordb,
     Grp 1 (alts [Seq (lit ''0x'') (Plus Hex), Plus Digit, lit ''true'', lit ''false'',
                  seq [Atom (Lit (CHR 0x22)), Star (Not (CHR 0x22)), Atom (Lit (CHR 0x22))]]),
     Wordb]"

definition public_functions_re :: regex where
  \<comment> \<open>\<open>function\s+\w+\s*\([^)]*\)\s*public\<close>\<close>
  "public_functions_re = seq [lit ''function'', Plus Space, Plus Word, Star Space,
     Atom (Lit CHR ''(''), Star (Not CHR '')''), Atom (Lit CHR '')''), Star Space, lit ''public'']"

definition require_statements_re :: regex where
  \<comment> \<open>\<open>require\s*\(\<close>\<close>
  "require_statements_re = seq [lit ''require'', Star Space, Atom (Lit CHR ''('')]"

definition error_re :: regex where
  \<comment> \<open>\<open>error\s+\w+\<close>\<close>
  "error_re = seq [lit ''error'', Plus Space, Plus Word]"

definition events_re :: regex where
  \<comment> \<open>\<open>event\s+\w+\<close>\<close>
  "events_re = seq [lit ''event'', Plus Space, Plus Word]"

definition emits_re :: regex where
  \<comment> \<open>\<open>emit\s+\w+\<close>\<close>
  "emits_re = seq [lit ''emit'', Plus Space, Plus Word]"

definition structs_re :: regex where
  \<comment> \<open>\<open>struct\s+\w+\s*{([^}]+)}\<close>\<close>
  "structs_re = seq [lit ''struct'', Plus Space, Plus Word, Star Space, Atom (Lit CHR ''{''),
     Grp 1 (Plus (Not CHR ''}'')), Atom (Lit CHR ''}'')]"

definition uint256_plain_re :: regex where
  \<comment> \<open>\<open>uint256\<close>, inside a struct body\<close>
  "uint256_plain_re = lit ''uint256''"

definition smaller_uint_re :: regex where
  \<comment> \<open>\<open>uint(?:8|16|32|64|128)\<close>\<close>
  "smaller_uint_re = Seq (lit ''uint'')
     (alts [lit ''8'', lit ''16'', lit ''32'', lit ''64'', lit ''128''])"


section \<open>The analyzer's data\<close>

text \<open>
  A hotspot and an optimization are dictionaries with fixed keys in the source; the values
  of \<open>type\<close> and \<open>severity\<close> are fixed words. Costs and savings are Python integers.
\<close>

datatype severity = LOW | MEDIUM | HIGH

datatype hotspot_type =
  STORAGE_USAGE | LOOP_OPERATIONS | FUNCTION_CALLS | ARRAY_OPERATIONS | MAPPING_OPERATIONS

datatype optimization_type =
  DATA_TYPE_OPTIMIZATION | CONSTANT_OPTIMIZATION | VISIBILITY_OPTIMIZATION |
  ERROR_OPTIMIZATION | EVENT_OPTIMIZATION | STRUCT_PACKING

record hotspot =
  h_type :: hotspot_type
  severity :: severity
  h_description :: string
  estimated_cost :: int
  h_optimization :: string

record optimization =
  o_type :: optimization_type
  o_description :: string
  gas_savings :: int

text \<open>
  The two lists of a \<open>GasAnalyzer\<close> object that the detectors append to. (The cost table
  \<open>gas_patterns\<close> and \<open>analysis_results\<close> are set in \<open>__init__\<close> and never read.)
\<close>

record gas_analyzer =
  optimizations :: "optimization list"
  gas_hotspots :: "hotspot list"

definition init :: gas_analyzer where
  "init = \<lparr>optimizations = [], gas_hotspots = []\<rparr>"

text \<open>\<open>str\<close> of an integer, as the f-strings of the descriptions print it.\<close>

function str_nat :: "nat \<Rightarrow> string" where
  "str_nat n = (if n < 10 then [char_of (48 + n)]
                else str_nat (n div 10) @ [char_of (48 + n mod 10)])"
  by pat_completeness auto
termination
  by (relation "measure (\<lambda>n. n)") auto

definition str :: "int \<Rightarrow> string" where
  "str i = (if i < 0 then CHR ''-'' # str_nat (nat (- i)) else str_nat (nat i))"

definition len :: "'a list \<Rightarrow> int" where
  "len xs = int (length xs)"

section \<open>The detectors\<close>

definition analyze_storage_usage :: "gas_analyzer \<Rightarrow> string \<Rightarrow> gas_analyzer" where
  "analyze_storage_usage self code =
     (let storage_vars = findall storage_vars_re code;
          storage_writes = len (findall storage_writes_re code);
          estimated_storage_cost = len storage_vars * 20000 + storage_writes * 5000
      in self\<lparr>gas_hotspots := gas_hotspots self @
           [\<lparr>h_type = STORAGE_USAGE,
             severity = (if len storage_vars > 10 then MEDIUM else LOW),
             h_description = ''Found '' @ str (len storage_vars) @ '' storage variables, '' @
                             str storage_writes @ '' assignments'',
             estimated_cost = estimated_storage_cost,
             h_optimization = ''Consider packing variables, using memory for temporary data''\<rparr>]\<rparr>)"

text \<open>
  The loop over \<open>for_loops + while_loops\<close> with its counter \<open>expensive_in_loops\<close>: two
  separate \<open>if\<close> statements, each adding one.
\<close>

fun count_expensive :: "string list \<Rightarrow> int \<Rightarrow> int" where
  "count_expensive [] expensive_in_loops = expensive_in_loops"
| "count_expensive (loop # loops) expensive_in_loops =
     (let e1 = (if search index_write_re loop then expensive_in_loops + 1
                else expensive_in_loops);
          e2 = (if search external_calls_re loop then e1 + 1 else e1)
      in count_expensive loops e2)"

definition analyze_loop_patterns :: "gas_analyzer \<Rightarrow> string \<Rightarrow> gas_analyzer" where
  "analyze_loop_patterns self code =
     (let for_loops = map (\<lambda>g. group g 1) (findall for_loops_re code);
          while_loops = map (\<lambda>g. group g 1) (findall while_loops_re code);
          expensive_in_loops = count_expensive (for_loops @ while_loops) 0
      in if for_loops \<noteq> [] \<or> while_loops \<noteq> [] then
           (let total_loops = len for_loops + len while_loops;
                estimated_cost = total_loops * 1000 + expensive_in_loops * 10000
            in self\<lparr>gas_hotspots := gas_hotspots self @
                 [\<lparr>h_type = LOOP_OPERATIONS,
                   severity = (if expensive_in_loops > 0 then HIGH else MEDIUM),
                   h_description = ''Found '' @ str total_loops @ '' loops, '' @
                                   str expensive_in_loops @ '' with expensive operations'',
                   estimated_cost = estimated_cost,
                   h_optimization = ''Minimize storage operations and external calls in loops''\<rparr>]\<rparr>)
         else self)"

definition analyze_function_patterns :: "gas_analyzer \<Rightarrow> string \<Rightarrow> gas_analyzer" where
  "analyze_function_patterns self code =
     (let functions = findall functions_re code;
          external_calls = len (findall external_calls_re code);
          delegate_calls = len (findall delegate_calls_re code);
          estimated_cost = len functions * 500 + external_calls * 700 + delegate_calls * 700
      in self\<lparr>gas_hotspots := gas_hotspots self @
           [\<lparr>h_type = FUNCTION_CALLS,
             severity = MEDIUM,
             h_description = ''Found '' @ str (len functions) @ '' functions, '' @
                             str external_calls @ '' external calls, '' @
                             str delegate_calls @ '' delegate calls'',
             estimated_cost = estimated_cost,
             h_optimization = ''Use internal functions when possible, batch external calls''\<rparr>]\<rparr>)"

text \<open>
  Of the seven counts of \<open>type_counts\<close> only \<open>string\<close>, \<open>bytes\<close>, \<open>uint256\<close> and \<open>uint\<close>
  are read.
\<close>

definition analyze_data_types :: "gas_analyzer \<Rightarrow> string \<Rightarrow> gas_analyzer" where
  "analyze_data_types self code =
     (let count_uint256 = len (findall uint256_re code);
          count_uint = len (findall uint_re code);
          count_string = len (findall string_re code);
          count_bytes = len (findall bytes_re code);
          self1 = (if count_string > count_bytes then
                     self\<lparr>optimizations := optimizations self @
                       [\<lparr>o_type = DATA_TYPE_OPTIMIZATION,
                         o_description =
                           ''Consider using bytes32 instead of string for fixed-length data ('' @
                           str count_string @ '' string usages found)'',
                         gas_savings = count_string * 20\<rparr>]\<rparr>
                   else self)
      in if count_uint256 > count_uint * 2 then
           self1\<lparr>optimizations := optimizations self1 @
             [\<lparr>o_type = DATA_TYPE_OPTIMIZATION,
               o_description = ''Consider using uint instead of uint256 where possible ('' @
                               str count_uint256 @ '' uint256 usages found)'',
               gas_savings = count_uint256 * 5\<rparr>]\<rparr>
         else self1)"

text \<open>The matches of \<open>arrays_re\<close> are computed by the source and not used.\<close>

definition analyze_array_operations :: "gas_analyzer \<Rightarrow> string \<Rightarrow> gas_analyzer" where
  "analyze_array_operations self code =
     (let array_push = len (findall array_push_re code);
          array_pop = len (findall array_pop_re code);
          array_access = len (findall array_access_re code)
      in if array_push + array_pop + array_access > 0 then
           (let estimated_cost = array_push * 20000 + array_pop * 5000 + array_access * 800
            in self\<lparr>gas_hotspots := gas_hotspots self @
                 [\<lparr>h_type = ARRAY_OPERATIONS,
                   severity = (if estimated_cost > 50000 then MEDIUM else LOW),
                   h_description = ''Array operations: '' @ str array_push @ '' push, '' @
                                   str array_pop @ '' pop, '' @ str array_access @ '' access'',
                   estimated_cost = estimated_cost,
                   h_optimization =
                     ''Consider using mappings for large datasets, batch array operations''\<rparr>]\<rparr>)
         else self)"

text \<open>The matches of \<open>mappings_re\<close> are computed by the source and not used.\<close>

definition analyze_mapping_operations :: "gas_analyzer \<Rightarrow> string \<Rightarrow> gas_analyzer" where
  "analyze_mapping_operations self code =
     (let mapping_reads = len (findall mapping_reads_re code);
          mapping_writes = len (findall index_write_re code)
      in if mapping_reads + mapping_writes > 0 then
           (let estimated_cost = mapping_reads * 800 + mapping_writes * 20000
            in self\<lparr>gas_hotspots := gas_hotspots self @
                 [\<lparr>h_type = MAPPING_OPERATIONS,
                   severity = LOW,
                   h_description = ''Mapping operations: '' @ str mapping_reads @ '' reads, '' @
                                   str mapping_writes @ '' writes'',
                   estimated_cost = estimated_cost,
                   h_optimization =
                     ''Mappings are generally gas-efficient for key-value storage''\<rparr>]\<rparr>)
         else self)"

text \<open>The loop of \<open>_check_constant_variables\<close> over the pairs \<open>(var, value)\<close>.\<close>

fun constant_loop :: "gas_analyzer \<Rightarrow> groups list \<Rightarrow> gas_analyzer" where
  "constant_loop self [] = self"
| "constant_loop self (g # gs) =
     (let var = group g 1; value = group g 2
      in constant_loop
           (if search literal_re value then
              self\<lparr>optimizations := optimizations self @
                [\<lparr>o_type = CONSTANT_OPTIMIZATION,
                  o_description = ''Variable '' @ [CHR 0x22] @ var @ [CHR 0x22] @
                                  '' could be marked as constant if not modified'',
                  gas_savings = 2300\<rparr>]\<rparr>
            else self)
           gs)"

definition check_constant_variables :: "gas_analyzer \<Rightarrow> string \<Rightarrow> gas_analyzer" where
  "check_constant_variables self code =
     constant_loop self (findall variable_assignments_re code)"

definition check_function_visibility :: "gas_analyzer \<Rightarrow> string \<Rightarrow> gas_analyzer" where
  "check_function_visibility self code =
     (let public_functions = len (findall public_functions_re code)
      in if public_functions > 0 then
           self\<lparr>optimizations := optimizations self @
             [\<lparr>o_type = VISIBILITY_OPTIMIZATION,
               o_description =
                 ''Consider making functions internal/private if not called externally ('' @
                 str public_functions @ '' public functions found)'',
               gas_savings = public_functions * 50\<rparr>]\<rparr>
         else self)"

definition check_require_statements :: "gas_analyzer \<Rightarrow> string \<Rightarrow> gas_analyzer" where
  "check_require_statements self code =
     (let require_statements = len (findall require_statements_re code)
      in if require_statements > 0 \<and> \<not> search error_re code then
           self\<lparr>optimizations := optimizations self @
             [\<lparr>o_type = ERROR_OPTIMIZATION,
               o_description =
                 ''Consider using custom errors instead of require strings ('' @
                 str require_statements @ '' require statements found)'',
               gas_savings = require_statements * 100\<rparr>]\<rparr>
         else self)"

definition check_event_usage :: "gas_analyzer \<Rightarrow> string \<Rightarrow> gas_analyzer" where
  "check_event_usage self code =
     (let events = len (findall events_re code);
          emits = len (findall emits_re code)
      in if events > emits then
           self\<lparr>optimizations := optimizations self @
             [\<lparr>o_type = EVENT_OPTIMIZATION,
               o_description = ''Some events are declared but not emitted ('' @ str events @
                               '' events, '' @ str emits @ '' emits)'',
               gas_savings = (events - emits) * 375\<rparr>]\<rparr>
         else self)"

text \<open>The loop of \<open>_check_struct_packing\<close> over the struct bodies.\<close>

fun struct_loop :: "gas_analyzer \<Rightarrow> string list \<Rightarrow> gas_analyzer" where
  "struct_loop self [] = self"
| "struct_loop self (struct # structs) =
     (let uint256_count = len (findall uint256_plain_re struct);
          smaller_uint_count = len (findall smaller_uint_re struct)
      in struct_loop
           (if uint256_count > 0 \<and> smaller_uint_count > 0 then
              self\<lparr>optimizations := optimizations self @
                [\<lparr>o_type = STRUCT_PACKING,
                  o_description =
                    ''Struct may benefit from variable packing (reorder smaller types together)'',
                  gas_savings = 2000\<rparr>]\<rparr>
            else self)
           structs)"

definition check_struct_packing :: "gas_analyzer \<Rightarrow> string \<Rightarrow> gas_analyzer" where
  "check_struct_packing self code =
     struct_loop self (map (\<lambda>g. group g 1) (findall structs_re code))"

definition suggest_optimizations :: "gas_analyzer \<Rightarrow> string \<Rightarrow> gas_analyzer" where
  "suggest_optimizations self code =
     check_struct_packing
       (check_event_usage
         (check_require_statements
           (check_function_visibility
             (check_constant_variables self code) code) code) code) code"

section \<open>The report\<close>

record summary =
  total_estimated_cost :: int
  total_potential_savings :: int
  efficiency_score :: int
  hotspot_count :: int
  optimization_count :: int

record report =
  file_path :: string
  analysis_timestamp :: string
  summary :: summary
  report_gas_hotspots :: "hotspot list"
  report_optimizations :: "optimization list"

text \<open>
  \<open>generate_gas_report\<close>; \<open>now\<close> is what \<open>datetime.now().isoformat()\<close> returns. Printing
  the report and writing it to a file are effects outside the model.
\<close>

definition generate_gas_report :: "gas_analyzer \<Rightarrow> string \<Rightarrow> string \<Rightarrow> report" where
  "generate_gas_report self now path =
     (let total_cost = sum_list (map estimated_cost (gas_hotspots self));
          total_savings = sum_list (map gas_savings (optimizations self))
      in \<lparr>file_path = path,
          analysis_timestamp = now,
          summary = \<lparr>total_estimated_cost = total_cost,
                      total_potential_savings = total_savings,
                      efficiency_score = max 0 (100 - total_cost div 1000),
                      hotspot_count = len (gas_hotspots self),
                      optimization_count = len (optimizations self)\<rparr>,
          report_gas_hotspots = gas_hotspots self,
          report_optimizations = optimizations self\<rparr>)"

text \<open>The detector pass of \<open>analyze_contract\<close>, in the order of the source.\<close>

definition detectors :: "gas_analyzer \<Rightarrow> string \<Rightarrow> gas_analyzer" where
  "detectors self contract_code =
     suggest_optimizations
       (analyze_mapping_operations
         (analyze_array_operations
           (analyze_data_types
             (analyze_function_patterns
               (analyze_loop_patterns
                 (analyze_storage_usage self contract_code)
                 contract_code) contract_code) contract_code) contract_code) contract_code)
       contract_code"




text \<open>The analysis of a text by a new analyzer, as \<open>main\<close> runs it.\<close>

definition analyze :: "string \<Rightarrow> string \<Rightarrow> string \<Rightarrow> report" where
  "analyze code now path = generate_gas_report (detectors init code) now path"


section \<open>Notions used in the properties\<close>


definition costs_nonneg :: "gas_analyzer \<Rightarrow> bool" where
  "costs_nonneg self = list_all (\<lambda>c. 0 \<le> c) (map estimated_cost (gas_hotspots self))"

definition savings_nonneg :: "gas_analyzer \<Rightarrow> bool" where
  "savings_nonneg self = list_all (\<lambda>s. 0 \<le> gas_savings s) (optimizations self)"


text \<open>The hotspot types in the order in which \<open>analyze_contract\<close> calls their detectors.\<close>

definition detector_order :: "hotspot_type list" where
  "detector_order =
     [STORAGE_USAGE, LOOP_OPERATIONS, FUNCTION_CALLS, ARRAY_OPERATIONS, MAPPING_OPERATIONS]"

text \<open>
  Notions for the behaviour of a pattern when text is appended to the source: the text of a
  matcher state, the text left by a match attempt, and closed forms of the attempts of the
  two patterns of \<open>analyze_storage_usage\<close>.
\<close>

definition text_of :: "mstate \<Rightarrow> string" where
  "text_of st = (case st of (g, pre, rest) \<Rightarrow> rev pre @ rest)"

definition rem :: "mstate option \<Rightarrow> string option" where
  "rem r = map_option (\<lambda>st. snd (snd st)) r"

definition attempt :: "regex \<Rightarrow> string \<Rightarrow> string \<Rightarrow> mstate option" where
  "attempt r pre rest = m r Some ([], pre, rest)"

definition rejects :: "(mstate \<Rightarrow> mstate option) \<Rightarrow> (char \<Rightarrow> bool) \<Rightarrow> bool" where
  "rejects k P = (\<forall>g pre x xs. P x \<longrightarrow> k (g, pre, x # xs) = None)"

fun eq_tail :: "string \<Rightarrow> string option" where
  "eq_tail [] = None"
| "eq_tail (x # xs) =
     (if is_space x then (case eq_tail xs of Some r \<Rightarrow> Some r | None \<Rightarrow> Some xs)
      else if x \<noteq> CHR ''='' then Some xs else None)"

definition writes_rem :: "string \<Rightarrow> string option" where
  "writes_rem u = (if u \<noteq> [] \<and> is_word (hd u) then
       (case dropWhile is_space (dropWhile is_word u) of
          [] \<Rightarrow> None
        | e # r3 \<Rightarrow> if e = CHR ''='' then eq_tail r3 else None)
     else None)"

definition has_write :: "string \<Rightarrow> bool" where
  "has_write u = (CHR ''='' \<in> set (butlast u))"

definition or_else :: "'a option \<Rightarrow> 'a option \<Rightarrow> 'a option" where
  "or_else a b = (case a of Some r \<Rightarrow> Some r | None \<Rightarrow> b)"

definition word_run :: "string \<Rightarrow> string option" where
  "word_run u = (if u \<noteq> [] \<and> is_word (hd u) then Some (dropWhile is_word u) else None)"

definition vis_path :: "string \<Rightarrow> string \<Rightarrow> string option" where
  "vis_path kw u =
     (if prefix kw u \<and> drop (length kw) u \<noteq> [] \<and> is_space (hd (drop (length kw) u))
      then word_run (dropWhile is_space (drop (length kw) u)) else None)"

definition vis_word :: "string \<Rightarrow> string option" where
  "vis_word u = or_else (vis_path ''public'' u) (or_else (vis_path ''private'' u)
                  (or_else (vis_path ''internal'' u) (word_run u)))"

definition spaces_then :: "string \<Rightarrow> string option" where
  "spaces_then u = (if u \<noteq> [] \<and> is_space (hd u) then vis_word (dropWhile is_space u) else None)"

definition type_path :: "string \<Rightarrow> bool \<Rightarrow> string \<Rightarrow> string option" where
  "type_path kw d u =
     (if prefix kw u
      then spaces_then (if d then dropWhile is_digit (drop (length kw) u) else drop (length kw) u)
      else None)"

definition types :: "string \<Rightarrow> string option" where
  "types u = or_else (type_path ''uint'' True u) (or_else (type_path ''int'' True u)
     (or_else (type_path ''bool'' False u) (or_else (type_path ''address'' False u)
       (or_else (type_path ''bytes'' True u) (type_path ''string'' False u)))))"

definition vars_rem :: "string \<Rightarrow> string \<Rightarrow> string option" where
  "vars_rem pre u = (if pre = [] \<or> hd pre = CHR 0x0A then types (dropWhile is_space u) else None)"

definition Ext :: "string \<Rightarrow> string option \<Rightarrow> string option \<Rightarrow> bool" where
  "Ext t a b = (b = map_option (\<lambda>r. r @ t) a \<or>
                (\<exists>r'. a = Some r' \<and> (\<forall>x\<in>set r'. is_space x) \<and> b \<noteq> None))"

definition word_then_spaces :: "string \<Rightarrow> bool" where
  "word_then_spaces u = (u \<noteq> [] \<and> is_word (hd u) \<and> (\<forall>x\<in>set (dropWhile is_word u). is_space x))"

fun sw :: "string \<Rightarrow> bool" where
  "sw (x # y # ys) = (is_space x \<and> is_word y \<or> sw (y # ys))"
| "sw _ = False"

definition has_decl :: "string \<Rightarrow> bool" where
  "has_decl u = sw (dropWhile is_space u)"

subsection \<open>Patterns that are a sequence of literals and greedy runs\<close>

text \<open>
  Most patterns of the hotspot detectors are a sequence of literal texts and of greedy runs
  \<open>c*\<close>, \<open>c+\<close> of a character class, each run followed by something that no character of
  the class can start. For such a sequence matching never backtracks: \<open>parse\<close> reads it
  from left to right and returns the text consumed and the text left. \<open>rx\<close> is the
  pattern of a sequence, \<open>det\<close> the condition on what follows each run, \<open>admits\<close> the
  characters an item can consume. \<open>touched\<close> says that the reading ran into the end of
  the text, so that a longer text may read on.
\<close>

datatype item = ILit string | IStar cset | IPlus cset

fun rx :: "item list \<Rightarrow> regex" where
  "rx [] = Eps"
| "rx (ILit kw # is) = Seq (lit kw) (rx is)"
| "rx (IStar c # is) = Seq (Star c) (rx is)"
| "rx (IPlus c # is) = Seq (Plus c) (rx is)"

fun parse :: "item list \<Rightarrow> string \<Rightarrow> (string \<times> string) option" where
  "parse [] u = Some ([], u)"
| "parse (ILit kw # is) u =
     (if prefix kw u
      then map_option (\<lambda>(a, r). (kw @ a, r)) (parse is (drop (length kw) u))
      else None)"
| "parse (IStar c # is) u =
     map_option (\<lambda>(a, r). (takeWhile (in_cset c) u @ a, r)) (parse is (dropWhile (in_cset c) u))"
| "parse (IPlus c # is) u =
     (if u \<noteq> [] \<and> in_cset c (hd u)
      then map_option (\<lambda>(a, r). (takeWhile (in_cset c) u @ a, r))
             (parse is (dropWhile (in_cset c) u))
      else None)"

definition disjoint :: "cset \<Rightarrow> cset \<Rightarrow> bool" where
  "disjoint c d = (\<forall>x. in_cset c x \<longrightarrow> \<not> in_cset d x)"

fun starts_ok :: "cset \<Rightarrow> item list \<Rightarrow> bool" where
  "starts_ok c [] = False"
| "starts_ok c (ILit kw # is) = (kw \<noteq> [] \<and> \<not> in_cset c (hd kw))"
| "starts_ok c (IPlus d # is) = disjoint c d"
| "starts_ok c (IStar d # is) = (disjoint c d \<and> starts_ok c is)"

fun det :: "item list \<Rightarrow> bool" where
  "det [] = True"
| "det (ILit kw # is) = det is"
| "det (IStar c # is) = (starts_ok c is \<and> det is)"
| "det (IPlus c # is) = (starts_ok c is \<and> det is)"

fun touched :: "item list \<Rightarrow> string \<Rightarrow> bool" where
  "touched [] u = False"
| "touched (ILit kw # is) u =
     (if prefix kw u then touched is (drop (length kw) u) else strict_prefix u kw)"
| "touched (IStar c # is) u =
     (dropWhile (in_cset c) u = [] \<or> touched is (dropWhile (in_cset c) u))"
| "touched (IPlus c # is) u =
     (u = [] \<or> in_cset c (hd u) \<and>
        (dropWhile (in_cset c) u = [] \<or> touched is (dropWhile (in_cset c) u)))"

fun admits :: "item \<Rightarrow> char \<Rightarrow> bool" where
  "admits (ILit kw) x = (x \<in> set kw)"
| "admits (IStar c) x = in_cset c x"
| "admits (IPlus c) x = in_cset c x"

definition lift_pair :: "string \<Rightarrow> (string \<times> string) option \<Rightarrow> (string \<times> string) option" where
  "lift_pair t x = map_option (\<lambda>(a, r). (a, r @ t)) x"

subsection \<open>The loop patterns\<close>

text \<open>
  \<open>loop_re kw\<close> is the pattern of \<open>for_loops\<close> and \<open>while_loops\<close> with the keyword left
  open; \<open>loop_body\<close> is what remains to be matched behind the opening brace. A loop can
  only be found where a \<open>)\<close> is followed, somewhere, by a \<open>}\<close>.
\<close>

definition loop_head :: "string \<Rightarrow> item list" where
  "loop_head kw = [ILit kw, IStar Space, ILit ''('', IPlus (Not CHR '')'')] @
                  ILit '')'' # [IStar Space, ILit ''{'']"

definition loop_re :: "string \<Rightarrow> regex" where
  "loop_re kw = seq [lit kw, Star Space, Atom (Lit CHR ''(''), Plus (Not CHR '')''),
     Atom (Lit CHR '')''), Star Space, Atom (Lit CHR ''{''), Grp 1 (Plus (Not CHR ''}'')),
     Atom (Lit CHR ''}'')]"

definition loop_body :: "string \<Rightarrow> string \<Rightarrow> string \<Rightarrow> mstate option" where
  "loop_body a pre r1 =
     (if r1 \<noteq> [] \<and> hd r1 \<noteq> CHR ''}''
      then (case dropWhile (\<lambda>x. x \<noteq> CHR ''}'') r1 of
              [] \<Rightarrow> None
            | x # r3 \<Rightarrow> Some ([(1, takeWhile (\<lambda>x. x \<noteq> CHR ''}'') r1)],
                CHR ''}'' # rev (takeWhile (\<lambda>x. x \<noteq> CHR ''}'') r1) @ rev a @ pre, r3))
      else None)"

definition loop_possible :: "string \<Rightarrow> bool" where
  "loop_possible u = (CHR ''}'' \<in> set (dropWhile (\<lambda>x. x \<noteq> CHR '')'') u))"

subsection \<open>Forgetting the groups\<close>

text \<open>
  The number of matches does not depend on what the groups capture: \<open>strip\<close> removes
  them, and two continuations are equivalent when they leave the same text.
\<close>

fun strip :: "regex \<Rightarrow> regex" where
  "strip (Grp n a) = strip a"
| "strip (Seq a b) = Seq (strip a) (strip b)"
| "strip (Alt a b) = Alt (strip a) (strip b)"
| "strip (Opt a) = Opt (strip a)"
| "strip (NotAhead a) = NotAhead (strip a)"
| "strip r = r"

definition req :: "(mstate \<Rightarrow> mstate option) \<Rightarrow> (mstate \<Rightarrow> mstate option) \<Rightarrow> bool" where
  "req k k' = (\<forall>g g' p r. rem (k (g, p, r)) = rem (k' (g', p, r)))"

subsection \<open>The function pattern\<close>

text \<open>
  Behind the parameter list the pattern of \<open>functions\<close> has three optional parts, each
  behind optional white space: a visibility, a mutability, a \<open>returns\<close> clause; then
  the opening brace. \<open>tail1\<close>, \<open>tail2\<close>, \<open>tail3\<close> read this from the first, the second and
  the third optional part on; \<open>K1\<close> to \<open>K4\<close> are the corresponding continuations of the
  matcher.
\<close>

definition pr :: "item list \<Rightarrow> string \<Rightarrow> string option" where
  "pr its u = map_option snd (parse its u)"

definition skip :: "(string \<Rightarrow> string option) \<Rightarrow> string \<Rightarrow> string option" where
  "skip f u = f (dropWhile is_space u)"

fun opt_kw :: "string list \<Rightarrow> (string \<Rightarrow> string option) \<Rightarrow> string \<Rightarrow> string option" where
  "opt_kw [] f u = f u"
| "opt_kw (kw # kws) f u =
     or_else (if prefix kw u then f (drop (length kw) u) else None) (opt_kw kws f u)"

definition fn_head :: "item list" where
  "fn_head = [ILit ''function'', IPlus Space, IPlus Word, IStar Space, ILit ''('',
              IStar (Not CHR '')'')] @ [ILit '')'']"

definition brace_items :: "item list" where
  "brace_items = [IStar Space] @ [ILit ''{'']"

definition returns_items :: "item list" where
  "returns_items = [ILit ''returns'', IStar Space, ILit ''('', IStar (Not CHR '')'')] @
                   ILit '')'' # brace_items"

definition after_returns :: "string \<Rightarrow> string option" where
  "after_returns u = or_else (pr returns_items u) (pr brace_items u)"

definition tail3 :: "string \<Rightarrow> string option" where
  "tail3 = skip after_returns"

definition tail2 :: "string \<Rightarrow> string option" where
  "tail2 = skip (opt_kw [''view'', ''pure'', ''payable''] tail3)"

definition tail1 :: "string \<Rightarrow> string option" where
  "tail1 = skip (opt_kw [''external'', ''public'', ''internal'', ''private''] tail2)"

definition fn_rem :: "string \<Rightarrow> string option" where
  "fn_rem u = (case parse fn_head u of None \<Rightarrow> None | Some (a, r) \<Rightarrow> tail1 r)"

definition K4 :: "mstate \<Rightarrow> mstate option" where
  "K4 = m (Star Space) (m (Atom (Lit CHR ''{'')) Some)"

definition K3 :: "mstate \<Rightarrow> mstate option" where
  "K3 = m (Star Space) (m (Opt (seq [lit ''returns'', Star Space, Atom (Lit CHR ''(''),
          Star (Not CHR '')''), Atom (Lit CHR '')'')])) K4)"

definition K2 :: "mstate \<Rightarrow> mstate option" where
  "K2 = m (Star Space) (m (Opt (alts [lit ''view'', lit ''pure'', lit ''payable''])) K3)"

definition K1 :: "mstate \<Rightarrow> mstate option" where
  "K1 = m (Star Space)
          (m (Opt (alts [lit ''external'', lit ''public'', lit ''internal'', lit ''private''])) K2)"

text \<open>
  A function header can only be found where a \<open>)\<close> is followed by white space and word
  characters up to a \<open>{\<close> (\<open>fn_possible\<close>); behind the parameter list the rest of a
  header needs such a \<open>)\<close> further on, or white space and word characters up to a \<open>{\<close>
  at once (\<open>tail_possible\<close>). A sequence of items is \<open>transparent\<close> when reading it
  keeps this, and a reader of the rest of a header is \<open>good\<close> when a longer text changes
  its result only where no header can be found.
\<close>

definition sp_or_word :: "char \<Rightarrow> bool" where
  "sp_or_word x = (is_space x \<or> is_word x)"

definition brace_after :: "string \<Rightarrow> bool" where
  "brace_after u = (case dropWhile sp_or_word u of [] \<Rightarrow> False | x # xs \<Rightarrow> x = CHR ''{'')"

fun fn_possible :: "string \<Rightarrow> bool" where
  "fn_possible [] = False"
| "fn_possible (x # xs) = (x = CHR '')'' \<and> brace_after xs \<or> fn_possible xs)"

definition tail_possible :: "string \<Rightarrow> bool" where
  "tail_possible u = (brace_after u \<or> fn_possible u)"

definition transparent :: "item list \<Rightarrow> bool" where
  "transparent its =
     ((\<forall>u. touched (its @ [ILit ''#'']) u \<longrightarrow> \<not> tail_possible u) \<and>
      (\<forall>u a r. parse its u = Some (a, r) \<longrightarrow> tail_possible u = tail_possible r))"

definition good :: "(string \<Rightarrow> string option) \<Rightarrow> bool" where
  "good f =
     ((\<forall>u t. f (u @ t) = map_option (\<lambda>r. r @ t) (f u) \<or> \<not> tail_possible u) \<and>
      (\<forall>u r. f u = Some r \<longrightarrow> tail_possible u \<and> length r \<le> length u))"

definition paren_items :: "item list" where
  "paren_items = [ILit ''('', IStar (Not CHR '')''), ILit '')'']"

definition fn_start :: "item list" where
  "fn_start = [ILit ''function'', IPlus Space, IPlus Word, IStar Space]"

subsection \<open>Index reads and index writes\<close>

text \<open>
  \<open>scan_count f\<close> counts the matches of a scan whose attempt at a position leaves the text
  \<open>f u\<close>. \<open>index_expr_re\<close> is the common part of \<open>mapping_reads\<close> and \<open>mapping_writes\<close>:
  an index expression, whatever follows it.
\<close>

function scan_count :: "(string \<Rightarrow> string option) \<Rightarrow> string \<Rightarrow> nat" where
  "scan_count f u =
     (case f u of
        Some r \<Rightarrow>
          if length r < length u then Suc (scan_count f r)
          else Suc (case u of [] \<Rightarrow> 0 | x # xs \<Rightarrow> scan_count f xs)
      | None \<Rightarrow> (case u of [] \<Rightarrow> 0 | x # xs \<Rightarrow> scan_count f xs))"
  by pat_completeness auto
termination
  by (relation "measure (\<lambda>(f, u). length u)") auto

declare scan_count.simps [simp del]

definition index_expr_re :: regex where
  "index_expr_re = seq [Plus Word, Star Space, Atom (Lit CHR ''[''), Star Space, Plus Word,
     Star Space, Atom (Lit CHR '']'')]"

definition index_items :: "item list" where
  "index_items = [IPlus Word, IStar Space, ILit ''['', IStar Space, IPlus Word, IStar Space] @
                 [ILit '']'']"

definition eq_items :: "item list" where
  "eq_items = [IStar Space] @ [ILit ''='']"

definition read_rem :: "string \<Rightarrow> string option" where
  "read_rem u = (case pr index_items u of None \<Rightarrow> None
                 | Some r \<Rightarrow> if pr eq_items r = None then Some r else None)"

definition write_rem :: "string \<Rightarrow> string option" where
  "write_rem u = (case pr index_items u of None \<Rightarrow> None | Some r \<Rightarrow> pr eq_items r)"

subsection \<open>The cost of a category\<close>

text \<open>
  \<open>loop_score\<close> is what one loop body adds to \<open>expensive_in_loops\<close>. The cost of a
  category in a report is the sum of the estimated costs of the hotspots of that type:
  the cost of its hotspot, or zero when the detector reported none.
\<close>

definition loop_score :: "string \<Rightarrow> int" where
  "loop_score loop = (if search index_write_re loop then 1 else 0) +
                     (if search external_calls_re loop then 1 else 0)"

definition category_cost :: "hotspot_type \<Rightarrow> report \<Rightarrow> int" where
  "category_cost ty r =
     sum_list (map estimated_cost (filter (\<lambda>h. h_type h = ty) (report_gas_hotspots r)))"


section \<open>Properties of the detectors\<close>

lemma len_nonneg [simp]: "0 \<le> len xs"
  by (simp add: len_def)

lemma len_Nil [simp]: "len [] = 0"
  by (simp add: len_def)

subsection \<open>What each detector appends\<close>

lemma storage_usage_types:
  "map h_type (gas_hotspots (analyze_storage_usage self code)) =
     map h_type (gas_hotspots self) @ [STORAGE_USAGE]"
  by (simp add: analyze_storage_usage_def Let_def)

lemma storage_usage_costs:
  "map estimated_cost (gas_hotspots (analyze_storage_usage self code)) =
     map estimated_cost (gas_hotspots self) @
     [len (findall storage_vars_re code) * 20000 + len (findall storage_writes_re code) * 5000]"
  by (simp add: analyze_storage_usage_def Let_def)

lemma storage_usage_severities:
  "map severity (gas_hotspots (analyze_storage_usage self code)) =
     map severity (gas_hotspots self) @
     [if len (findall storage_vars_re code) > 10 then MEDIUM else LOW]"
  by (simp add: analyze_storage_usage_def Let_def)

lemma loop_patterns_types:
  "map h_type (gas_hotspots (analyze_loop_patterns self code)) =
     map h_type (gas_hotspots self) @
     (if findall for_loops_re code \<noteq> [] \<or> findall while_loops_re code \<noteq> []
      then [LOOP_OPERATIONS] else [])"
  by (simp add: analyze_loop_patterns_def Let_def)

lemma loop_patterns_costs:
  "map estimated_cost (gas_hotspots (analyze_loop_patterns self code)) =
     map estimated_cost (gas_hotspots self) @
     (if findall for_loops_re code \<noteq> [] \<or> findall while_loops_re code \<noteq> []
      then [(len (findall for_loops_re code) + len (findall while_loops_re code)) * 1000 +
            count_expensive (map (\<lambda>g. group g 1) (findall for_loops_re code) @
                             map (\<lambda>g. group g 1) (findall while_loops_re code)) 0 * 10000]
      else [])"
  by (simp add: analyze_loop_patterns_def Let_def len_def)

lemma function_patterns_types:
  "map h_type (gas_hotspots (analyze_function_patterns self code)) =
     map h_type (gas_hotspots self) @ [FUNCTION_CALLS]"
  by (simp add: analyze_function_patterns_def Let_def)

lemma function_patterns_costs:
  "map estimated_cost (gas_hotspots (analyze_function_patterns self code)) =
     map estimated_cost (gas_hotspots self) @
     [len (findall functions_re code) * 500 + len (findall external_calls_re code) * 700 +
      len (findall delegate_calls_re code) * 700]"
  by (simp add: analyze_function_patterns_def Let_def)

lemma array_operations_types:
  "map h_type (gas_hotspots (analyze_array_operations self code)) =
     map h_type (gas_hotspots self) @
     (if len (findall array_push_re code) + len (findall array_pop_re code) +
         len (findall array_access_re code) > 0
      then [ARRAY_OPERATIONS] else [])"
  by (simp add: analyze_array_operations_def Let_def)

lemma array_operations_costs:
  "map estimated_cost (gas_hotspots (analyze_array_operations self code)) =
     map estimated_cost (gas_hotspots self) @
     (if len (findall array_push_re code) + len (findall array_pop_re code) +
         len (findall array_access_re code) > 0
      then [len (findall array_push_re code) * 20000 + len (findall array_pop_re code) * 5000 +
            len (findall array_access_re code) * 800]
      else [])"
  by (simp add: analyze_array_operations_def Let_def)

lemma mapping_operations_types:
  "map h_type (gas_hotspots (analyze_mapping_operations self code)) =
     map h_type (gas_hotspots self) @
     (if len (findall mapping_reads_re code) + len (findall index_write_re code) > 0
      then [MAPPING_OPERATIONS] else [])"
  by (simp add: analyze_mapping_operations_def Let_def)

lemma mapping_operations_costs:
  "map estimated_cost (gas_hotspots (analyze_mapping_operations self code)) =
     map estimated_cost (gas_hotspots self) @
     (if len (findall mapping_reads_re code) + len (findall index_write_re code) > 0
      then [len (findall mapping_reads_re code) * 800 + len (findall index_write_re code) * 20000]
      else [])"
  by (simp add: analyze_mapping_operations_def Let_def)

lemma count_expensive_mono: "n \<le> count_expensive loops n"
proof (induction loops arbitrary: n)
  case Nil
  show ?case by simp
next
  case (Cons loop loops)
  let ?e1 = "if search index_write_re loop then n + 1 else n"
  let ?e2 = "if search external_calls_re loop then ?e1 + 1 else ?e1"
  have "n \<le> ?e2" by simp
  also have "?e2 \<le> count_expensive loops ?e2" by (rule Cons.IH)
  finally show ?case by (simp add: Let_def)
qed

subsection \<open>The optimization detectors leave the hotspots alone\<close>

lemma constant_loop_hotspots [simp]: "gas_hotspots (constant_loop self gs) = gas_hotspots self"
  by (induction gs arbitrary: self) (simp_all add: Let_def)

lemma struct_loop_hotspots [simp]: "gas_hotspots (struct_loop self ss) = gas_hotspots self"
  by (induction ss arbitrary: self) (simp_all add: Let_def)

lemma data_types_hotspots [simp]: "gas_hotspots (analyze_data_types self code) = gas_hotspots self"
  by (simp add: analyze_data_types_def Let_def)

lemma suggest_optimizations_hotspots [simp]:
  "gas_hotspots (suggest_optimizations self code) = gas_hotspots self"
  by (simp add: suggest_optimizations_def check_constant_variables_def
      check_function_visibility_def check_require_statements_def check_event_usage_def
      check_struct_packing_def Let_def)

subsection \<open>Costs and savings are never negative\<close>

lemma costs_storage: "costs_nonneg self \<Longrightarrow> costs_nonneg (analyze_storage_usage self code)"
  by (simp add: costs_nonneg_def storage_usage_costs)

lemma costs_loops: "costs_nonneg self \<Longrightarrow> costs_nonneg (analyze_loop_patterns self code)"
proof -
  assume a: "costs_nonneg self"
  have "0 \<le> count_expensive (map (\<lambda>g. group g 1) (findall for_loops_re code) @
                           map (\<lambda>g. group g 1) (findall while_loops_re code)) 0"
    by (rule count_expensive_mono)
  with a show ?thesis
    by (simp add: costs_nonneg_def loop_patterns_costs)
qed

lemma costs_functions: "costs_nonneg self \<Longrightarrow> costs_nonneg (analyze_function_patterns self code)"
  by (simp add: costs_nonneg_def function_patterns_costs)

lemma costs_arrays: "costs_nonneg self \<Longrightarrow> costs_nonneg (analyze_array_operations self code)"
  by (simp add: costs_nonneg_def array_operations_costs)

lemma costs_mappings: "costs_nonneg self \<Longrightarrow> costs_nonneg (analyze_mapping_operations self code)"
  by (simp add: costs_nonneg_def mapping_operations_costs)

lemma costs_data_types: "costs_nonneg self \<Longrightarrow> costs_nonneg (analyze_data_types self code)"
  by (simp add: costs_nonneg_def)

lemma costs_suggest: "costs_nonneg self \<Longrightarrow> costs_nonneg (suggest_optimizations self code)"
  by (simp add: costs_nonneg_def)

lemma costs_detectors: "costs_nonneg self \<Longrightarrow> costs_nonneg (detectors self code)"
  unfolding detectors_def
  by (intro costs_suggest costs_mappings costs_arrays costs_data_types costs_functions
      costs_loops costs_storage)

lemma savings_hotspot_detectors [simp]:
  "optimizations (analyze_storage_usage self code) = optimizations self"
  "optimizations (analyze_loop_patterns self code) = optimizations self"
  "optimizations (analyze_function_patterns self code) = optimizations self"
  "optimizations (analyze_array_operations self code) = optimizations self"
  "optimizations (analyze_mapping_operations self code) = optimizations self"
  by (simp_all add: analyze_storage_usage_def analyze_loop_patterns_def
      analyze_function_patterns_def analyze_array_operations_def
      analyze_mapping_operations_def Let_def)

lemma savings_data_types: "savings_nonneg self \<Longrightarrow> savings_nonneg (analyze_data_types self code)"
  by (simp add: savings_nonneg_def analyze_data_types_def Let_def)

lemma savings_constant_loop: "savings_nonneg self \<Longrightarrow> savings_nonneg (constant_loop self gs)"
  by (induction gs arbitrary: self) (simp_all add: savings_nonneg_def Let_def)

lemma savings_struct_loop: "savings_nonneg self \<Longrightarrow> savings_nonneg (struct_loop self ss)"
  by (induction ss arbitrary: self) (simp_all add: savings_nonneg_def Let_def)

lemma savings_visibility:
  "savings_nonneg self \<Longrightarrow> savings_nonneg (check_function_visibility self code)"
  by (simp add: savings_nonneg_def check_function_visibility_def Let_def)

lemma savings_require:
  "savings_nonneg self \<Longrightarrow> savings_nonneg (check_require_statements self code)"
  by (simp add: savings_nonneg_def check_require_statements_def Let_def)

lemma savings_event: "savings_nonneg self \<Longrightarrow> savings_nonneg (check_event_usage self code)"
  by (simp add: savings_nonneg_def check_event_usage_def Let_def)

lemma savings_suggest:
  "savings_nonneg self \<Longrightarrow> savings_nonneg (suggest_optimizations self code)"
  by (simp add: suggest_optimizations_def check_constant_variables_def check_struct_packing_def
      savings_constant_loop savings_struct_loop savings_visibility savings_require savings_event)

lemma savings_detectors: "savings_nonneg self \<Longrightarrow> savings_nonneg (detectors self code)"
proof -
  assume a: "savings_nonneg self"
  let ?s = "analyze_function_patterns (analyze_loop_patterns (analyze_storage_usage self code) code) code"
  from a have "savings_nonneg ?s" by (simp add: savings_nonneg_def)
  then have "savings_nonneg (analyze_data_types ?s code)" by (rule savings_data_types)
  then have "savings_nonneg (analyze_mapping_operations (analyze_array_operations
      (analyze_data_types ?s code) code) code)"
    by (simp add: savings_nonneg_def)
  then show ?thesis
    unfolding detectors_def by (rule savings_suggest)
qed

lemma nonneg_init: "costs_nonneg init" "savings_nonneg init"
  by (simp_all add: costs_nonneg_def savings_nonneg_def init_def)




lemma detectors_types:
  "map h_type (gas_hotspots (detectors self code)) =
     map h_type (gas_hotspots self) @ [STORAGE_USAGE] @
     (if findall for_loops_re code \<noteq> [] \<or> findall while_loops_re code \<noteq> []
      then [LOOP_OPERATIONS] else []) @
     [FUNCTION_CALLS] @
     (if len (findall array_push_re code) + len (findall array_pop_re code) +
         len (findall array_access_re code) > 0
      then [ARRAY_OPERATIONS] else []) @
     (if len (findall mapping_reads_re code) + len (findall index_write_re code) > 0
      then [MAPPING_OPERATIONS] else [])"
  by (simp add: detectors_def mapping_operations_types array_operations_types
      function_patterns_types loop_patterns_types storage_usage_types)




section \<open>Appending text to the source\<close>

text \<open>
  A match attempt on a longer text gives the same match as on the shorter one unless it
  runs into the end of the shorter one; then the shorter text has no further match. So
  the number of matches of a pattern of \<open>analyze_storage_usage\<close> never goes down when
  text is appended.
\<close>

lemma star_text:
  assumes "\<And>st st'. k st = Some st' \<Longrightarrow> text_of st' = text_of st"
  shows "star c k g pre rest = Some st' \<Longrightarrow> text_of st' = rev pre @ rest"
proof (induction rest arbitrary: pre)
  case Nil
  then show ?case using assms [of "(g, pre, [])" st'] by (simp add: text_of_def)
next
  case (Cons x xs)
  show ?case
  proof (cases "in_cset c x \<and> star c k g (x # pre) xs \<noteq> None")
    case True
    with Cons.prems have "star c k g (x # pre) xs = Some st'" by auto
    from Cons.IH [OF this] show ?thesis by simp
  next
    case False
    then have "star c k g pre (x # xs) = k (g, pre, x # xs)"
      by (cases "star c k g (x # pre) xs") auto
    with Cons.prems have "k (g, pre, x # xs) = Some st'" by simp
    from assms [OF this] show ?thesis by (simp add: text_of_def)
  qed
qed

lemma m_text:
  "(\<And>s s'. k s = Some s' \<Longrightarrow> text_of s' = text_of s) \<Longrightarrow> m r k st = Some st' \<Longrightarrow>
   text_of st' = text_of st"
proof (induction r arbitrary: k st st')
  case Eps
  then show ?case by simp
next
  case (Atom c)
  obtain g pre rest where st: "st = (g, pre, rest)" by (cases st)
  have "\<exists>x xs. rest = x # xs \<and> k (g, x # pre, xs) = Some st'"
    using Atom.prems(2) st by (cases rest) (auto split: if_splits)
  then obtain x xs where "rest = x # xs" "k (g, x # pre, xs) = Some st'" by blast
  with Atom.prems(1) [of "(g, x # pre, xs)" st'] st show ?case by (simp add: text_of_def)
next
  case (Seq a b)
  have "\<And>s s'. m b k s = Some s' \<Longrightarrow> text_of s' = text_of s"
    using Seq.IH(2) Seq.prems(1) by blast
  with Seq.IH(1) [of "m b k" st st'] Seq.prems(2) show ?case by simp
next
  case (Alt a b)
  from Alt.prems(2) have "m a k st = Some st' \<or> m b k st = Some st'"
    by (cases "m a k st") auto
  with Alt.IH Alt.prems(1) show ?case by blast
next
  case (Opt a)
  from Opt.prems(2) have "m a k st = Some st' \<or> k st = Some st'"
    by (cases "m a k st") auto
  with Opt.IH Opt.prems(1) show ?case by blast
next
  case (Star c)
  obtain g pre rest where st: "st = (g, pre, rest)" by (cases st)
  with Star.prems(2) have "star c k g pre rest = Some st'" by simp
  from star_text [OF Star.prems(1) this] st show ?case by (simp add: text_of_def)
next
  case (Plus c)
  obtain g pre rest where st: "st = (g, pre, rest)" by (cases st)
  have "\<exists>x xs. rest = x # xs \<and> star c k g (x # pre) xs = Some st'"
    using Plus.prems(2) st by (cases rest) (auto split: if_splits)
  then obtain x xs where "rest = x # xs" "star c k g (x # pre) xs = Some st'" by blast
  with star_text [OF Plus.prems(1), where c = c and g = g and pre = "x # pre" and rest = xs
      and st' = st'] st show ?case
    by (simp add: text_of_def)
next
  case Bol
  obtain g pre rest where st: "st = (g, pre, rest)" by (cases st)
  with Bol.prems(2) have "k st = Some st'" by (auto split: if_splits)
  with Bol.prems(1) show ?case by blast
next
  case Wordb
  obtain g pre rest where st: "st = (g, pre, rest)" by (cases st)
  with Wordb.prems(2) have "k st = Some st'" by (auto split: if_splits)
  with Wordb.prems(1) show ?case by blast
next
  case (NotAhead a)
  from NotAhead.prems(2) have "k st = Some st'"
    by (cases "m a Some st") auto
  with NotAhead.prems(1) show ?case by blast
next
  case (Grp n a)
  obtain g pre rest where st: "st = (g, pre, rest)" by (cases st)
  let ?k = "\<lambda>(g', pre', rest'). k ((n, rev (take (length pre' - length pre) pre')) # g', pre', rest')"
  have "\<And>s s'. ?k s = Some s' \<Longrightarrow> text_of s' = text_of s"
    using Grp.prems(1) by (auto simp: text_of_def split: prod.splits)
  with Grp.IH [of ?k st st'] Grp.prems(2) st show ?case by simp
qed

lemma attempt_text:
  "attempt r pre rest = Some (g', pre', rest') \<Longrightarrow> rev pre' @ rest' = rev pre @ rest"
  using m_text [where k = Some and r = r and st = "([], pre, rest)" and st' = "(g', pre', rest')"]
  by (simp add: attempt_def text_of_def)

lemma finditer_dead:
  assumes ncm: "\<forall>pre u. attempt r pre u \<noteq> None \<longrightarrow> NC u"
    and ncs: "\<forall>x xs. NC xs \<longrightarrow> NC (x # xs)"
  shows "\<not> NC u \<Longrightarrow> finditer r pre u = []"
proof (induction u arbitrary: pre)
  case Nil
  with ncm have "attempt r pre [] = None" by blast
  then show ?case by (simp add: finditer.simps [of r pre "[]"] attempt_def)
next
  case (Cons x xs)
  with ncm have a: "attempt r pre (x # xs) = None" by blast
  from Cons.prems ncs have "\<not> NC xs" by blast
  from Cons.IH [OF this] a show ?case
    by (simp add: finditer.simps [of r pre "x # xs"] attempt_def)
qed

lemma finditer_mono:
  assumes ext: "\<And>pre rest.
      rem (attempt r pre (rest @ t)) = map_option (\<lambda>r'. r' @ t) (rem (attempt r pre rest)) \<or>
      \<not> NC rest \<or>
      (\<exists>r'. rem (attempt r pre rest) = Some r' \<and> \<not> NC r' \<and> attempt r pre (rest @ t) \<noteq> None)"
    and ncm: "\<forall>pre u. attempt r pre u \<noteq> None \<longrightarrow> NC u"
    and ncs: "\<forall>x xs. NC xs \<longrightarrow> NC (x # xs)"
    and shorter: "\<And>pre u r'. rem (attempt r pre u) = Some r' \<Longrightarrow> length r' < length u"
  shows "length (finditer r pre rest) \<le> length (finditer r pre (rest @ t))"
proof (induction "length rest" arbitrary: pre rest rule: less_induct)
  case less
  note dead = finditer_dead [OF ncm ncs]
  consider
    (stable) "rem (attempt r pre (rest @ t)) = map_option (\<lambda>r'. r' @ t) (rem (attempt r pre rest))"
  | (none) "\<not> NC rest"
  | (last) r' where "rem (attempt r pre rest) = Some r'" "\<not> NC r'" "attempt r pre (rest @ t) \<noteq> None"
    using ext [of pre rest] by blast
  then show ?case
  proof cases
    case none
    from dead [OF none] show ?thesis by simp
  next
    case (last r')
    from last(1) obtain g p where a: "attempt r pre rest = Some (g, p, r')"
      by (auto simp: rem_def)
    from last(1) have "length r' < length rest" by (rule shorter)
    with a have "finditer r pre rest = g # finditer r p r'"
      by (simp add: finditer.simps [of r pre rest] attempt_def)
    with dead [OF last(2)] have "length (finditer r pre rest) = 1" by simp
    moreover from last(3) have "1 \<le> length (finditer r pre (rest @ t))"
      by (auto simp: finditer.simps [of r pre "rest @ t"] attempt_def split: option.splits)
    ultimately show ?thesis by simp
  next
    case stable
    show ?thesis
    proof (cases "attempt r pre rest")
      case None
      with stable have n: "attempt r pre (rest @ t) = None" by (simp add: rem_def)
      show ?thesis
      proof (cases rest)
        case Nil
        with None show ?thesis by (simp add: finditer.simps [of r pre "[]"] attempt_def)
      next
        case (Cons x xs)
        with less [of xs "x # pre"] None n show ?thesis
          by (simp add: finditer.simps [of r pre "x # xs"]
              finditer.simps [of r pre "x # xs @ t"] attempt_def)
      qed
    next
      case (Some st)
      obtain g p r' where st: "st = (g, p, r')" by (cases st)
      with Some stable obtain g2 p2 where l: "attempt r pre (rest @ t) = Some (g2, p2, r' @ t)"
        by (auto simp: rem_def)
      from Some st have sh: "length r' < length rest"
        using shorter [of pre rest r'] by (simp add: rem_def)
      from attempt_text [OF l] attempt_text [OF Some [unfolded st]] have "p2 = p"
        by (metis append.assoc append_same_eq rev_is_rev_conv)
      with less [OF sh, of p] Some st l sh show ?thesis
        by (simp add: finditer.simps [of r pre rest] finditer.simps [of r pre "rest @ t"]
            attempt_def)
    qed
  qed
qed

lemma space_not_eq: "is_space x \<Longrightarrow> x \<noteq> CHR ''=''"
  by (auto simp: is_space_def)

lemma word_not_eq: "is_word x \<Longrightarrow> x \<noteq> CHR ''=''"
  by (auto simp: is_word_def)

lemma word_not_space: "is_word x \<Longrightarrow> \<not> is_space x"
  by (auto simp: is_word_def is_space_def Let_def)

lemma digit_word: "is_digit x \<Longrightarrow> is_word x"
  by (auto simp: is_word_def is_digit_def Let_def)

lemma eq_not_space [simp]: "\<not> is_space CHR ''=''"
  by (simp add: is_space_def)

lemma eq_not_word [simp]: "\<not> is_word CHR ''=''"
  by (simp add: is_word_def)

lemma in_cset_funs [simp]:
  "in_cset Space = is_space" "in_cset Word = is_word" "in_cset Digit = is_digit"
  by (rule ext, simp)+

lemma m_Seq_fun [simp]: "m (Seq a b) k = m a (m b k)"
  by (rule ext) simp

lemma star_det:
  assumes "rejects k (in_cset c)"
  shows "star c k g pre rest =
         k (g, rev (takeWhile (in_cset c) rest) @ pre, dropWhile (in_cset c) rest)"
proof (induction rest arbitrary: pre)
  case Nil
  show ?case by simp
next
  case (Cons x xs)
  show ?case
  proof (cases "in_cset c x")
    case True
    with assms have "k (g, pre, x # xs) = None" by (simp add: rejects_def)
    with True have "star c k g pre (x # xs) = star c k g (x # pre) xs"
      by (cases "star c k g (x # pre) xs") auto
    with Cons.IH [of "x # pre"] True show ?thesis by simp
  next
    case False
    then show ?thesis by simp
  qed
qed

lemma plus_det:
  assumes "rejects k (in_cset c)"
  shows "m (Plus c) k (g, pre, rest) =
         (if rest \<noteq> [] \<and> in_cset c (hd rest)
          then k (g, rev (takeWhile (in_cset c) rest) @ pre, dropWhile (in_cset c) rest)
          else None)"
  by (cases rest) (simp_all add: star_det [OF assms])

lemma rejects_Atom: "(\<And>x. P x \<Longrightarrow> \<not> in_cset c x) \<Longrightarrow> rejects (m (Atom c) k) P"
  by (auto simp: rejects_def)

lemma rejects_Plus: "(\<And>x. P x \<Longrightarrow> \<not> in_cset c x) \<Longrightarrow> rejects (m (Plus c) k) P"
  by (auto simp: rejects_def)

lemma rejects_Star:
  "(\<And>x. P x \<Longrightarrow> \<not> in_cset c x) \<Longrightarrow> rejects k P \<Longrightarrow> rejects (m (Star c) k) P"
  by (auto simp: rejects_def)

lemma rejects_Seq: "rejects (m a (m b k)) P \<Longrightarrow> rejects (m (Seq a b) k) P"
  by (simp add: rejects_def)

lemma rem_simps [simp]: "rem None = None" "rem (Some st) = Some (snd (snd st))"
  by (simp_all add: rem_def)

lemma star_eq_tail:
  "rem (star Space (m (Atom (Not CHR ''='')) Some) g pre u) = eq_tail u"
proof (induction u arbitrary: pre)
  case Nil
  show ?case by simp
next
  case (Cons x xs)
  show ?case
  proof (cases "is_space x")
    case True
    then have x: "x \<noteq> CHR ''=''" by (rule space_not_eq)
    show ?thesis
    proof (cases "star Space (m (Atom (Not CHR ''='')) Some) g (x # pre) xs")
      case None
      with Cons.IH [of "x # pre"] have "eq_tail xs = None" by simp
      with True x None show ?thesis by simp
    next
      case (Some st)
      with Cons.IH [of "x # pre"] have "eq_tail xs = rem (Some st)" by simp
      with True Some show ?thesis by simp
    qed
  next
    case False
    then show ?thesis by simp
  qed
qed

lemma writes_closed: "rem (attempt storage_writes_re pre rest) = writes_rem rest"
proof -
  let ?k4 = "m (Atom (Not CHR ''='')) Some"
  let ?k3 = "m (Star Space) ?k4"
  let ?k2 = "m (Atom (Lit CHR ''='')) ?k3"
  let ?k1 = "m (Star Space) ?k2"
  have r2: "rejects ?k2 (in_cset Space)"
    by (rule rejects_Atom) (simp add: space_not_eq)
  have r1: "rejects ?k1 (in_cset Word)"
    by (rule rejects_Star) (auto simp: word_not_space word_not_eq intro!: rejects_Atom)
  have k1: "rem (?k1 (g, p, u)) =
      (case dropWhile is_space u of [] \<Rightarrow> None
       | e # r3 \<Rightarrow> if e = CHR ''='' then eq_tail r3 else None)" for g p u
  proof (cases "dropWhile is_space u")
    case Nil
    then show ?thesis by (simp add: star_det [OF r2] del: dropWhile_eq_Nil_conv)
  next
    case (Cons e r3)
    then show ?thesis by (simp add: star_det [OF r2] star_eq_tail)
  qed
  have "attempt storage_writes_re pre rest = m (Plus Word) ?k1 ([], pre, rest)"
    by (simp add: attempt_def storage_writes_re_def del: m.simps)
  then show ?thesis
    by (simp add: plus_det [OF r1] k1 writes_rem_def del: m.simps)
qed

lemma rem_None_iff: "rem x = None \<longleftrightarrow> x = None"
  by (cases x) simp_all

lemma dropWhile_cases:
  obtains (all) "\<forall>x\<in>set u. P x"
  | (stop) y ys where "dropWhile P u = y # ys" "\<not> P y" "dropWhile P (u @ t) = y # ys @ t"
proof (cases "dropWhile P u")
  case Nil
  then show ?thesis using all by simp
next
  case (Cons y ys)
  then have "\<not> P y" by (metis hd_dropWhile list.distinct(1) list.sel(1))
  moreover from Cons have "\<exists>x\<in>set u. \<not> P x"
    by (metis dropWhile_eq_Nil_conv list.distinct(1))
  then have "dropWhile P (u @ t) = dropWhile P u @ t"
    by (auto simp: dropWhile_append)
  ultimately show ?thesis using Cons stop by simp
qed

lemma eq_tail_ext:
  "eq_tail (u @ t) = map_option (\<lambda>r. r @ t) (eq_tail u) \<or> u = [] \<or>
   (eq_tail u = Some [] \<and> eq_tail (u @ t) \<noteq> None)"
proof (induction u)
  case Nil
  show ?case by simp
next
  case (Cons x xs)
  show ?case
  proof (cases "is_space x")
    case False
    then show ?thesis by simp
  next
    case True
    then have some: "eq_tail (x # ys) \<noteq> None" for ys
      by (cases "eq_tail ys") simp_all
    from Cons.IH consider
      (stable) "eq_tail (xs @ t) = map_option (\<lambda>r. r @ t) (eq_tail xs)"
      | (empty) "xs = []"
      | (last) "eq_tail xs = Some []" "eq_tail (xs @ t) \<noteq> None"
      by blast
    then show ?thesis
    proof cases
      case stable
      with True show ?thesis by (cases "eq_tail xs") simp_all
    next
      case empty
      with True some [of t] show ?thesis by simp
    next
      case last
      with True some [of "xs @ t"] show ?thesis by simp
    qed
  qed
qed

lemma eq_tail_shorter: "eq_tail u = Some r \<Longrightarrow> length r < length u"
proof (induction u arbitrary: r)
  case Nil
  then show ?case by simp
next
  case (Cons x xs)
  then show ?case
    by (cases "eq_tail xs") (auto split: if_splits dest: less_SucI)
qed

lemma has_write_Cons: "has_write xs \<Longrightarrow> has_write (x # xs)"
  by (cases xs) (simp_all add: has_write_def)

lemma writes_rem_parts:
  assumes "writes_rem u = Some r"
  shows "\<exists>w s r3. u = w @ s @ CHR ''='' # r3 \<and> eq_tail r3 = Some r"
proof -
  let ?r1 = "dropWhile is_word u"
  from assms obtain r3 where r3: "dropWhile is_space ?r1 = CHR ''='' # r3" "eq_tail r3 = Some r"
    by (auto simp: writes_rem_def split: if_splits list.splits)
  have "u = takeWhile is_word u @ takeWhile is_space ?r1 @ dropWhile is_space ?r1"
    by simp
  with r3 show ?thesis by metis
qed

lemma writes_rem_has_write: "writes_rem u \<noteq> None \<Longrightarrow> has_write u"
proof -
  assume "writes_rem u \<noteq> None"
  then obtain r where "writes_rem u = Some r" by blast
  from writes_rem_parts [OF this] obtain w s r3 where
    u: "u = w @ s @ CHR ''='' # r3" and e: "eq_tail r3 = Some r" by blast
  from e have "r3 \<noteq> []" by auto
  with u show ?thesis by (simp add: has_write_def butlast_append)
qed

lemma writes_rem_shorter: "writes_rem u = Some r \<Longrightarrow> length r < length u"
proof -
  assume "writes_rem u = Some r"
  from writes_rem_parts [OF this] obtain w s r3 where
    u: "u = w @ s @ CHR ''='' # r3" and e: "eq_tail r3 = Some r" by blast
  from eq_tail_shorter [OF e] u show ?thesis by simp
qed

lemma writes_rem_ext:
  "writes_rem (u @ t) = map_option (\<lambda>r. r @ t) (writes_rem u) \<or> \<not> has_write u \<or>
   (writes_rem u = Some [] \<and> writes_rem (u @ t) \<noteq> None)"
proof (cases "u \<noteq> [] \<and> is_word (hd u)")
  case False
  then show ?thesis by (cases u) (simp_all add: writes_rem_def has_write_def)
next
  case True
  then have hd: "(u @ t) \<noteq> [] \<and> is_word (hd (u @ t))" by simp
  show ?thesis
  proof (cases rule: dropWhile_cases [where u = u and P = is_word and t = t])
    case all
    then have "CHR ''='' \<notin> set u" by auto
    then show ?thesis by (auto simp: has_write_def dest: in_set_butlastD)
  next
    case (stop y ys)
    note r1 = stop
    show ?thesis
    proof (cases rule: dropWhile_cases [where u = "y # ys" and P = is_space and t = t])
      case all
      have "u = takeWhile is_word u @ y # ys"
        using r1(1) by (metis takeWhile_dropWhile_id)
      moreover have "CHR ''='' \<notin> set (takeWhile is_word u)"
        by (auto dest: set_takeWhileD)
      moreover from all have "CHR ''='' \<notin> set (y # ys)" by auto
      ultimately have "CHR ''='' \<notin> set u" by (metis Un_iff set_append)
      then show ?thesis by (auto simp: has_write_def dest: in_set_butlastD)
    next
      case (stop e r3)
      note r2 = stop
      have short: "writes_rem u = (if e = CHR ''='' then eq_tail r3 else None)"
        using True r1(1) r2(1) by (simp add: writes_rem_def)
      have long: "writes_rem (u @ t) = (if e = CHR ''='' then eq_tail (r3 @ t) else None)"
        using hd r1(3) r2(3) by (simp add: writes_rem_def)
      show ?thesis
      proof (cases "e = CHR ''=''")
        case False
        with short long show ?thesis by simp
      next
        case e: True
        from eq_tail_ext [of r3 t] consider
          (stable) "eq_tail (r3 @ t) = map_option (\<lambda>r. r @ t) (eq_tail r3)"
          | (empty) "r3 = []"
          | (last) "eq_tail r3 = Some []" "eq_tail (r3 @ t) \<noteq> None"
          by blast
        then show ?thesis
        proof cases
          case stable
          with short long e show ?thesis by simp
        next
          case last
          with short long e show ?thesis by simp
        next
          case empty
          have u: "u = takeWhile is_word u @ takeWhile is_space (y # ys) @ [CHR ''='']"
            using r1(1) r2(1) e empty
            by (metis takeWhile_dropWhile_id)
          have "CHR ''='' \<notin> set (takeWhile is_word u)"
            by (auto dest: set_takeWhileD)
          moreover have "CHR ''='' \<notin> set (takeWhile is_space (y # ys))"
            by (auto dest: set_takeWhileD)
          ultimately have "CHR ''='' \<notin> set (butlast u)"
            by (subst u) (simp add: butlast_append del: takeWhile.simps)
          then show ?thesis by (simp add: has_write_def)
        qed
      qed
    qed
  qed
qed

lemma writes_mono:
  "length (findall storage_writes_re code) \<le> length (findall storage_writes_re (code @ extra))"
  unfolding findall_def
proof (rule finditer_mono [where NC = has_write])
  fix pre rest
  show "rem (attempt storage_writes_re pre (rest @ extra)) =
          map_option (\<lambda>r'. r' @ extra) (rem (attempt storage_writes_re pre rest)) \<or>
        \<not> has_write rest \<or>
        (\<exists>r'. rem (attempt storage_writes_re pre rest) = Some r' \<and> \<not> has_write r' \<and>
              attempt storage_writes_re pre (rest @ extra) \<noteq> None)"
  proof -
    have "writes_rem (rest @ extra) \<noteq> None \<Longrightarrow>
        attempt storage_writes_re pre (rest @ extra) \<noteq> None"
      using writes_closed [of pre "rest @ extra"] by (simp add: rem_None_iff [symmetric])
    moreover have "\<not> has_write []" by (simp add: has_write_def)
    ultimately show ?thesis
      using writes_rem_ext [of rest extra] unfolding writes_closed by metis
  qed
next
  show "\<forall>pre u. attempt storage_writes_re pre u \<noteq> None \<longrightarrow> has_write u"
    using writes_rem_has_write by (simp add: rem_None_iff [symmetric] writes_closed)
next
  show "\<forall>x xs. has_write xs \<longrightarrow> has_write (x # xs)"
    by (simp add: has_write_Cons)
next
  fix pre u r'
  assume "rem (attempt storage_writes_re pre u) = Some r'"
  then show "length r' < length u"
    by (simp add: writes_closed writes_rem_shorter del: rem_simps)
qed

lemma or_else_simps [simp]: "or_else None b = b" "or_else (Some r) b = Some r"
  by (simp_all add: or_else_def)

lemma or_else_assoc [simp]: "or_else (or_else a b) c = or_else a (or_else b c)"
  by (cases a) simp_all

lemma rem_or_else:
  "rem (case a of Some r \<Rightarrow> Some r | None \<Rightarrow> b) = or_else (rem a) (rem b)"
  by (cases a) simp_all

lemma star_first:
  "k (g, rev (takeWhile (in_cset c) rest) @ pre, dropWhile (in_cset c) rest) \<noteq> None \<Longrightarrow>
   star c k g pre rest =
     k (g, rev (takeWhile (in_cset c) rest) @ pre, dropWhile (in_cset c) rest)"
proof (induction rest arbitrary: pre)
  case Nil
  show ?case by simp
next
  case (Cons x xs)
  show ?case
  proof (cases "in_cset c x")
    case True
    with Cons.prems have n: "k (g, rev (takeWhile (in_cset c) xs) @ x # pre, dropWhile (in_cset c) xs) \<noteq> None"
      by simp
    from n obtain r where r: "k (g, rev (takeWhile (in_cset c) xs) @ x # pre, dropWhile (in_cset c) xs) = Some r"
      by blast
    with Cons.IH [OF n] have "star c k g (x # pre) xs = Some r" by simp
    with True r show ?thesis by simp
  next
    case False
    then show ?thesis by simp
  qed
qed

lemma m_lit:
  "m (lit kw) k (g, pre, rest) =
     (if prefix kw rest then k (g, rev kw @ pre, drop (length kw) rest) else None)"
proof (induction kw arbitrary: k g pre rest rule: lit.induct)
  case 1
  show ?case by simp
next
  case (2 c)
  show ?case by (cases rest) auto
next
  case (3 c v va)
  show ?case
    using "3.IH" [of k g "c # pre"] by (cases rest) auto
qed

lemma rejects_lit: "kw \<noteq> [] \<Longrightarrow> \<not> P (hd kw) \<Longrightarrow> rejects (m (lit kw) k) P"
  by (cases kw) (auto simp: rejects_def m_lit)

lemma rejects_Alt: "rejects (m a k) P \<Longrightarrow> rejects (m b k) P \<Longrightarrow> rejects (m (Alt a b) k) P"
  by (simp add: rejects_def)

lemma rejects_Opt: "rejects (m a k) P \<Longrightarrow> rejects k P \<Longrightarrow> rejects (m (Opt a) k) P"
  by (simp add: rejects_def)

lemma rejects_Grp: "(\<And>k'. rejects (m a k') P) \<Longrightarrow> rejects (m (Grp n a) k) P"
  by (simp add: rejects_def)

lemma space_not_letter [simp]:
  "\<not> is_space CHR ''p''" "\<not> is_space CHR ''i''" "\<not> is_space CHR ''u''"
  "\<not> is_space CHR ''b''" "\<not> is_space CHR ''a''" "\<not> is_space CHR ''s''"
  by (simp_all add: is_space_def)

lemma digit_not_space: "is_digit x \<Longrightarrow> \<not> is_space x"
  by (auto simp: is_digit_def is_space_def Let_def)

lemma kW_closed: "rem (m (Grp 2 (Plus Word)) Some (g, p, u)) = word_run u"
proof (cases u)
  case Nil
  then show ?thesis by (simp add: word_run_def)
next
  case (Cons x xs)
  let ?k = "\<lambda>(g', pre', rest'). Some ((2::nat, rev (take (length pre' - length p) pre')) # g', pre', rest')"
  have "star Word ?k g (x # p) xs =
        ?k (g, rev (takeWhile (in_cset Word) xs) @ x # p, dropWhile (in_cset Word) xs)"
    by (rule star_first) simp
  with Cons show ?thesis by (simp add: word_run_def)
qed

lemma kW_rejects: "rejects (m (Grp 2 (Plus Word)) Some) is_space"
  by (rule rejects_Grp) (auto intro!: rejects_Plus dest: word_not_space)

lemma vis_path_closed:
  assumes "kw \<noteq> []"
  shows "rem (m (Seq (lit kw) (Plus Space)) (m (Grp 2 (Plus Word)) Some) (g, p, u)) =
         vis_path kw u"
proof -
  have "m (Plus Space) (m (Grp 2 (Plus Word)) Some) (g', p', u') =
        (if u' \<noteq> [] \<and> is_space (hd u')
         then m (Grp 2 (Plus Word)) Some (g', rev (takeWhile is_space u') @ p', dropWhile is_space u')
         else None)" for g' p' u'
    using plus_det [where c = Space, OF _, of "m (Grp 2 (Plus Word)) Some" g' p' u'] kW_rejects
    by simp
  then show ?thesis
    by (simp add: m_lit vis_path_def kW_closed del: m.simps)
qed

lemma rem_Alt: "rem (m (Alt a b) k st) = or_else (rem (m a k st)) (rem (m b k st))"
  by (cases "m a k st") simp_all

lemma rem_Opt: "rem (m (Opt a) k st) = or_else (rem (m a k st)) (rem (k st))"
  by (cases "m a k st") simp_all

lemma kV_closed: "rem (m visibility_ws (m (Grp 2 (Plus Word)) Some) (g, p, u)) = vis_word u"
  by (simp add: visibility_ws_def rem_Opt rem_Alt vis_path_closed kW_closed vis_word_def
      del: m.simps lit.simps m_Seq_fun)

lemma rejects_closed:
  assumes "\<And>g p u. rem (K (g, p, u)) = f u" and "\<And>x xs. P x \<Longrightarrow> f (x # xs) = None"
  shows "rejects K P"
  unfolding rejects_def
proof (intro allI impI)
  fix g pre x xs
  assume "P x"
  with assms have "rem (K (g, pre, x # xs)) = None" by simp
  then show "K (g, pre, x # xs) = None" by (simp only: rem_None_iff)
qed

lemma prefix_Cons_hd: "kw \<noteq> [] \<Longrightarrow> x \<noteq> hd kw \<Longrightarrow> \<not> prefix kw (x # xs)"
  by (cases kw) auto

lemma vis_path_space: "kw \<noteq> [] \<Longrightarrow> \<not> is_space (hd kw) \<Longrightarrow> is_space x \<Longrightarrow> vis_path kw (x # xs) = None"
  using prefix_Cons_hd [of kw x xs] by (auto simp: vis_path_def)

lemma space_not_word: "is_space x \<Longrightarrow> \<not> is_word x"
  using word_not_space by blast

lemma vis_word_space: "is_space x \<Longrightarrow> vis_word (x # xs) = None"
  by (simp add: vis_word_def vis_path_space word_run_def space_not_word)

lemma kS_closed:
  "rem (m (Plus Space) (m visibility_ws (m (Grp 2 (Plus Word)) Some)) (g, p, u)) = spaces_then u"
proof -
  have "rejects (m visibility_ws (m (Grp 2 (Plus Word)) Some)) (in_cset Space)"
    by (rule rejects_closed [where f = vis_word]) (simp_all add: kV_closed vis_word_space)
  from plus_det [OF this] show ?thesis
    by (simp add: spaces_then_def kV_closed del: m.simps)
qed

lemma spaces_then_nonspace: "\<not> is_space x \<Longrightarrow> spaces_then (x # xs) = None"
  by (simp add: spaces_then_def)

lemma type_path_digits:
  assumes K: "\<And>g p u. rem (K (g, p, u)) = spaces_then u"
  shows "rem (m (Seq (lit kw) (Star Digit)) K (g, p, u)) = type_path kw True u"
proof -
  have "rejects K (in_cset Digit)"
    by (rule rejects_closed [where f = spaces_then])
      (simp_all add: K spaces_then_nonspace digit_not_space)
  from star_det [OF this] show ?thesis
    by (simp add: m_lit type_path_def K del: lit.simps)
qed

lemma type_path_plain:
  assumes K: "\<And>g p u. rem (K (g, p, u)) = spaces_then u"
  shows "rem (m (lit kw) K (g, p, u)) = type_path kw False u"
  by (simp add: m_lit type_path_def K)

lemma kT_closed:
  "rem (m (Grp 1 (alts [Seq (lit ''uint'') (Star Digit), Seq (lit ''int'') (Star Digit),
        lit ''bool'', lit ''address'', Seq (lit ''bytes'') (Star Digit), lit ''string'']))
      (m (Plus Space) (m visibility_ws (m (Grp 2 (Plus Word)) Some))) (g, p, u)) = types u"
proof -
  let ?kS = "m (Plus Space) (m visibility_ws (m (Grp 2 (Plus Word)) Some))"
  let ?K = "\<lambda>(g', pre', rest'). ?kS ((1::nat, rev (take (length pre' - length p) pre')) # g', pre', rest')"
  have K: "rem (?K (g', p', u')) = spaces_then u'" for g' p' u'
    by (simp add: kS_closed del: m.simps)
  show ?thesis
    by (simp add: rem_Alt types_def type_path_digits type_path_plain kS_closed
        del: m.simps(2-10) lit.simps m_Seq_fun)
qed

lemma type_path_space:
  "kw \<noteq> [] \<Longrightarrow> \<not> is_space (hd kw) \<Longrightarrow> is_space x \<Longrightarrow> type_path kw d (x # xs) = None"
  using prefix_Cons_hd [of kw x xs] by (auto simp: type_path_def)

lemma types_space: "is_space x \<Longrightarrow> types (x # xs) = None"
  by (simp add: types_def type_path_space)

lemma vars_closed: "rem (attempt storage_vars_re pre u) = vars_rem pre u"
proof -
  let ?kT = "m (Grp 1 (alts [Seq (lit ''uint'') (Star Digit), Seq (lit ''int'') (Star Digit),
        lit ''bool'', lit ''address'', Seq (lit ''bytes'') (Star Digit), lit ''string'']))
      (m (Plus Space) (m visibility_ws (m (Grp 2 (Plus Word)) Some)))"
  have "rejects ?kT (in_cset Space)"
    by (rule rejects_closed [where f = types, OF kT_closed]) (simp add: types_space)
  from star_det [OF this] have "rem (star Space ?kT g p v) = types (dropWhile is_space v)" for g p v
    by (simp only: kT_closed in_cset_funs)
  then show ?thesis
    by (simp add: attempt_def storage_vars_re_def vars_rem_def
        del: m.simps(2-5) m.simps(7) m.simps(9-11) lit.simps alts.simps One_nat_def)
qed

lemma Ext_None [simp]: "Ext t None None"
  by (simp add: Ext_def)

lemma or_else_None_iff: "or_else a b = None \<longleftrightarrow> a = None \<and> b = None"
  by (cases a) simp_all

lemma or_else_Ext:
  assumes "Ext t a a'" and "Ext t b b'"
  shows "Ext t (or_else a b) (or_else a' b')"
proof (cases a)
  case None
  with assms(1) have "a' = None" by (simp add: Ext_def)
  with None assms(2) show ?thesis by simp
next
  case (Some r)
  with assms(1) have "a' \<noteq> None" by (auto simp: Ext_def)
  then obtain r2 where "a' = Some r2" by blast
  with Some assms(1) show ?thesis by (simp add: Ext_def)
qed

lemma or_else_Ext_fallback:
  assumes a: "Ext t a a' \<or> (a = None \<and> F)"
    and b: "Ext t b b'"
    and f: "F \<Longrightarrow> \<exists>r'. b = Some r' \<and> (\<forall>x\<in>set r'. is_space x)"
    and n: "b \<noteq> None \<Longrightarrow> b' \<noteq> None"
  shows "Ext t (or_else a b) (or_else a' b')"
proof (cases "Ext t a a'")
  case True
  from True b show ?thesis by (rule or_else_Ext)
next
  case False
  with a have an: "a = None" and F by blast+
  from f [OF \<open>F\<close>] obtain r' where r': "b = Some r'" "\<forall>x\<in>set r'. is_space x" by blast
  with n have "b' \<noteq> None" by simp
  then have "or_else a' b' \<noteq> None" by (simp add: or_else_None_iff)
  with an r' show ?thesis by (simp add: Ext_def)
qed

lemma word_run_ext: "u \<noteq> [] \<Longrightarrow> Ext t (word_run u) (word_run (u @ t))"
proof (cases "is_word (hd u)")
  case False
  assume "u \<noteq> []"
  with False show ?thesis by (simp add: word_run_def)
next
  case True
  assume u: "u \<noteq> []"
  show ?thesis
  proof (cases rule: dropWhile_cases [where u = u and P = is_word and t = t])
    case all
    then have "word_run u = Some []" using True u by (simp add: word_run_def)
    moreover have "word_run (u @ t) \<noteq> None" using True u by (simp add: word_run_def)
    ultimately show ?thesis by (simp add: Ext_def)
  next
    case (stop y ys)
    with True u show ?thesis by (simp add: word_run_def Ext_def)
  qed
qed

lemma dropWhile_append_all:
  "\<forall>x\<in>set a. P x \<Longrightarrow> dropWhile P (a @ b) = dropWhile P b"
  by (simp add: dropWhile_append)

lemma prefix_append_cases: "prefix kw (u @ t) \<Longrightarrow> prefix kw u \<or> prefix u kw"
  by (metis prefix_append prefixI)

lemma dropWhile_all_Nil: "\<forall>x\<in>set u. P x \<Longrightarrow> dropWhile P u = []"
  by simp

lemma all_word_then_spaces: "u \<noteq> [] \<Longrightarrow> \<forall>x\<in>set u. is_word x \<Longrightarrow> word_then_spaces u"
  by (cases u) (simp_all add: word_then_spaces_def dropWhile_all_Nil)

lemma vis_path_ext:
  assumes kw: "kw \<noteq> []" "\<forall>x\<in>set kw. is_word x" and u: "u \<noteq> []"
  shows "Ext t (vis_path kw u) (vis_path kw (u @ t)) \<or>
         (vis_path kw u = None \<and> word_then_spaces u)"
proof (cases "prefix kw u")
  case True
  then obtain r4 where r4: "u = kw @ r4" by (auto simp: prefix_def)
  have hdu: "is_word (hd u)" using kw r4 by (cases kw) auto
  have short: "vis_path kw u =
      (if r4 \<noteq> [] \<and> is_space (hd r4) then word_run (dropWhile is_space r4) else None)"
    using r4 by (simp add: vis_path_def)
  have long: "vis_path kw (u @ t) =
      (if r4 @ t \<noteq> [] \<and> is_space (hd (r4 @ t)) then word_run (dropWhile is_space (r4 @ t))
       else None)"
    using r4 by (simp add: vis_path_def)
  show ?thesis
  proof (cases "r4 = []")
    case True
    with r4 kw have "dropWhile is_word u = []" by simp
    then have "\<forall>x\<in>set (dropWhile is_word u). is_space x" by (simp only: list.set ball_empty)
    with u hdu have "word_then_spaces u" by (simp add: word_then_spaces_def)
    moreover from True short have "vis_path kw u = None" by simp
    ultimately show ?thesis by blast
  next
    case ne: False
    show ?thesis
    proof (cases "is_space (hd r4)")
      case False
      with ne short long show ?thesis by simp
    next
      case sp: True
      show ?thesis
      proof (cases rule: dropWhile_cases [where u = r4 and P = is_space and t = t])
        case all
        then have d: "dropWhile is_space r4 = []" by simp
        from sp ne have "\<not> is_word (hd r4)" by (simp add: space_not_word)
        with ne have "dropWhile is_word r4 = r4" by (cases r4) simp_all
        with kw r4 have "dropWhile is_word u = r4" by (simp add: dropWhile_append_all)
        with all u hdu have "word_then_spaces u" by (simp add: word_then_spaces_def)
        moreover from d short have "vis_path kw u = None" by (simp add: word_run_def)
        ultimately show ?thesis by blast
      next
        case (stop y ys)
        with ne sp short long word_run_ext [of "y # ys" t] show ?thesis by simp
      qed
    qed
  qed
next
  case False
  then have short: "vis_path kw u = None" by (simp add: vis_path_def)
  show ?thesis
  proof (cases "prefix kw (u @ t)")
    case True
    with False have "prefix u kw" using prefix_append_cases by blast
    then have "set u \<subseteq> set kw" by (rule set_mono_prefix)
    with kw have "\<forall>x\<in>set u. is_word x" by blast
    with u have "word_then_spaces u" by (rule all_word_then_spaces)
    with short show ?thesis by blast
  next
    case False
    then have "vis_path kw (u @ t) = None" by (simp add: vis_path_def)
    with short show ?thesis by simp
  qed
qed

lemma word_then_spaces_vis_path:
  assumes kw: "\<forall>x\<in>set kw. is_word x" and f: "word_then_spaces u"
  shows "vis_path kw u = None"
proof (rule ccontr)
  assume "vis_path kw u \<noteq> None"
  then obtain r4 where r4: "u = kw @ r4" "r4 \<noteq> []" "is_space (hd r4)"
    and w: "word_run (dropWhile is_space r4) \<noteq> None"
    by (auto simp: vis_path_def prefix_def split: if_splits)
  from r4 have "\<not> is_word (hd r4)" by (simp add: space_not_word)
  with r4 have "dropWhile is_word r4 = r4" by (cases r4) simp_all
  with kw r4 have "dropWhile is_word u = r4" by (simp add: dropWhile_append_all)
  with f have "\<forall>x\<in>set r4. is_space x" by (simp add: word_then_spaces_def)
  then have "dropWhile is_space r4 = []" by simp
  with w show False by (simp add: word_run_def)
qed

lemma vis_path_hd: "kw \<noteq> [] \<Longrightarrow> \<forall>x\<in>set kw. is_word x \<Longrightarrow> vis_path kw u \<noteq> None \<Longrightarrow>
  u \<noteq> [] \<and> is_word (hd u)"
  by (cases kw) (auto simp: vis_path_def prefix_def split: if_splits)

lemma word_run_long: "u \<noteq> [] \<and> is_word (hd u) \<Longrightarrow> word_run (u @ t) \<noteq> None"
  by (simp add: word_run_def)

lemma word_letters [simp]:
  "\<forall>x\<in>set ''public''. is_word x" "\<forall>x\<in>set ''private''. is_word x"
  "\<forall>x\<in>set ''internal''. is_word x" "\<forall>x\<in>set ''uint''. is_word x"
  "\<forall>x\<in>set ''int''. is_word x" "\<forall>x\<in>set ''bool''. is_word x"
  "\<forall>x\<in>set ''address''. is_word x" "\<forall>x\<in>set ''bytes''. is_word x"
  "\<forall>x\<in>set ''string''. is_word x"
  by (simp_all add: is_word_def)

lemma vis_word_hd: "vis_word u \<noteq> None \<longleftrightarrow> u \<noteq> [] \<and> is_word (hd u)"
proof
  assume "vis_word u \<noteq> None"
  then show "u \<noteq> [] \<and> is_word (hd u)"
    unfolding vis_word_def or_else_None_iff
    using vis_path_hd [of "''public''" u] vis_path_hd [of "''private''" u]
      vis_path_hd [of "''internal''" u]
    by (auto simp: word_run_def split: if_splits)
next
  assume "u \<noteq> [] \<and> is_word (hd u)"
  then show "vis_word u \<noteq> None"
    by (simp add: vis_word_def or_else_None_iff word_run_def)
qed

lemma vis_chain_step:
  assumes kw: "kw \<noteq> []" "\<forall>x\<in>set kw. is_word x" and u: "u \<noteq> []"
    and b: "Ext t b b'"
    and f: "word_then_spaces u \<Longrightarrow> \<exists>r'. b = Some r' \<and> (\<forall>x\<in>set r'. is_space x)"
    and n1: "b \<noteq> None \<Longrightarrow> is_word (hd u)"
    and n2: "is_word (hd u) \<Longrightarrow> b' \<noteq> None"
  shows "Ext t (or_else (vis_path kw u) b) (or_else (vis_path kw (u @ t)) b')"
    and "word_then_spaces u \<Longrightarrow>
         \<exists>r'. or_else (vis_path kw u) b = Some r' \<and> (\<forall>x\<in>set r'. is_space x)"
    and "or_else (vis_path kw u) b \<noteq> None \<Longrightarrow> is_word (hd u)"
    and "is_word (hd u) \<Longrightarrow> or_else (vis_path kw (u @ t)) b' \<noteq> None"
proof -
  show "Ext t (or_else (vis_path kw u) b) (or_else (vis_path kw (u @ t)) b')"
  proof (rule or_else_Ext_fallback [where F = "word_then_spaces u"])
    show "Ext t (vis_path kw u) (vis_path kw (u @ t)) \<or>
          vis_path kw u = None \<and> word_then_spaces u"
      using kw u by (rule vis_path_ext)
    show "Ext t b b'" by (rule b)
    show "word_then_spaces u \<Longrightarrow> \<exists>r'. b = Some r' \<and> (\<forall>x\<in>set r'. is_space x)" by (rule f)
    show "b \<noteq> None \<Longrightarrow> b' \<noteq> None" using n1 n2 by blast
  qed
  show "word_then_spaces u \<Longrightarrow>
        \<exists>r'. or_else (vis_path kw u) b = Some r' \<and> (\<forall>x\<in>set r'. is_space x)"
    using f word_then_spaces_vis_path [OF kw(2), of u] by simp
  show "or_else (vis_path kw u) b \<noteq> None \<Longrightarrow> is_word (hd u)"
    using vis_path_hd [OF kw, of u] n1 by (auto simp: or_else_None_iff)
  show "is_word (hd u) \<Longrightarrow> or_else (vis_path kw (u @ t)) b' \<noteq> None"
    using n2 by (simp add: or_else_None_iff)
qed

lemma vis_word_ext:
  assumes u: "u \<noteq> []"
  shows "Ext t (vis_word u) (vis_word (u @ t))"
proof -
  note w = word_run_ext [OF u, of t]
  have wf: "word_then_spaces u \<Longrightarrow> \<exists>r'. word_run u = Some r' \<and> (\<forall>x\<in>set r'. is_space x)"
    by (simp add: word_then_spaces_def word_run_def)
  have wn1: "word_run u \<noteq> None \<Longrightarrow> is_word (hd u)"
    by (simp add: word_run_def split: if_splits)
  have wn2: "is_word (hd u) \<Longrightarrow> word_run (u @ t) \<noteq> None"
    using u by (simp add: word_run_def)
  have ne: "''internal'' \<noteq> ([]::string)" "''private'' \<noteq> ([]::string)"
    "''public'' \<noteq> ([]::string)"
    by simp_all
  note x3 = vis_chain_step [OF ne(1) word_letters(3) u w wf wn1 wn2]
  note x2 = vis_chain_step [OF ne(2) word_letters(2) u x3]
  note x1 = vis_chain_step [OF ne(3) word_letters(1) u x2]
  from x1(1) show ?thesis by (simp add: vis_word_def)
qed

lemma sw_Cons: "sw xs \<Longrightarrow> sw (x # xs)"
  by (cases xs) simp_all

lemma sw_append_left: "sw v \<Longrightarrow> sw (a @ v)"
  by (induction a) (simp_all add: sw_Cons)

lemma sw_no_space: "\<forall>x\<in>set u. \<not> is_space x \<Longrightarrow> \<not> sw u"
  by (induction u rule: sw.induct) simp_all

lemma sw_all_space: "\<forall>x\<in>set u. is_space x \<Longrightarrow> \<not> sw u"
  by (induction u rule: sw.induct) (simp_all add: space_not_word)

lemma sw_append_no_space: "\<forall>x\<in>set a. \<not> is_space x \<Longrightarrow> sw (a @ u) = sw u"
proof (induction a)
  case Nil
  show ?case by simp
next
  case (Cons x a)
  then have "sw (a @ u) = sw u" by simp
  with Cons.prems show ?case by (cases "a @ u") simp_all
qed

lemma sw_spaces_word:
  "v \<noteq> [] \<Longrightarrow> is_space (hd v) \<Longrightarrow> dropWhile is_space v = y # ys \<Longrightarrow> is_word y \<Longrightarrow> sw v"
proof (induction v)
  case Nil
  then show ?case by simp
next
  case (Cons x xs)
  show ?case
  proof (cases xs)
    case Nil
    with Cons.prems show ?thesis by simp
  next
    case (Cons z zs)
    show ?thesis
    proof (cases "is_space z")
      case True
      with Cons.prems Cons Cons.IH show ?thesis by simp
    next
      case False
      with Cons.prems Cons show ?thesis by simp
    qed
  qed
qed

lemma has_decl_Cons: "has_decl xs \<Longrightarrow> has_decl (x # xs)"
  unfolding has_decl_def
proof -
  assume a: "sw (dropWhile is_space xs)"
  show "sw (dropWhile is_space (x # xs))"
  proof (cases "is_space x")
    case True
    with a show ?thesis by simp
  next
    case False
    have "sw (takeWhile is_space xs @ dropWhile is_space xs)"
      using a by (rule sw_append_left)
    then have "sw xs" by simp
    with False show ?thesis by (simp add: sw_Cons)
  qed
qed

lemma has_decl_spaces: "\<forall>x\<in>set r. is_space x \<Longrightarrow> \<not> has_decl r"
  by (simp add: has_decl_def dropWhile_all_Nil)

lemma spaces_then_ext: "Ext t (spaces_then u) (spaces_then (u @ t)) \<or> \<not> sw u"
proof (cases "u \<noteq> [] \<and> is_space (hd u)")
  case False
  then show ?thesis by (cases u) (simp_all add: spaces_then_def)
next
  case True
  show ?thesis
  proof (cases rule: dropWhile_cases [where u = u and P = is_space and t = t])
    case all
    then show ?thesis by (simp add: sw_all_space)
  next
    case (stop y ys)
    with True vis_word_ext [of "y # ys" t] show ?thesis by (simp add: spaces_then_def)
  qed
qed

lemma type_path_ext:
  assumes kw: "\<forall>x\<in>set kw. is_word x"
  shows "Ext t (type_path kw d u) (type_path kw d (u @ t)) \<or> \<not> sw u"
proof (cases "prefix kw u")
  case True
  then obtain r where r: "u = kw @ r" by (auto simp: prefix_def)
  from kw have kwns: "\<forall>x\<in>set kw. \<not> is_space x" by (auto dest: word_not_space)
  show ?thesis
  proof (cases d)
    case False
    with r have "type_path kw d u = spaces_then r" "type_path kw d (u @ t) = spaces_then (r @ t)"
      by (simp_all add: type_path_def)
    moreover from r kwns have "sw u = sw r" by (simp add: sw_append_no_space)
    ultimately show ?thesis using spaces_then_ext [of t r] by simp
  next
    case d: True
    show ?thesis
    proof (cases rule: dropWhile_cases [where u = r and P = is_digit and t = t])
      case all
      with r kwns have "\<forall>x\<in>set u. \<not> is_space x" by (auto dest: digit_not_space)
      then show ?thesis by (simp add: sw_no_space)
    next
      case (stop y ys)
      with r d have "type_path kw d u = spaces_then (y # ys)"
        "type_path kw d (u @ t) = spaces_then ((y # ys) @ t)"
        by (simp_all add: type_path_def)
      moreover have "u = (kw @ takeWhile is_digit r) @ y # ys"
        using r stop(1) by (metis append.assoc takeWhile_dropWhile_id)
      moreover have "\<forall>x\<in>set (kw @ takeWhile is_digit r). \<not> is_space x"
        using kwns by (auto dest: set_takeWhileD digit_not_space)
      ultimately have "sw u = sw (y # ys)"
        using sw_append_no_space [of "kw @ takeWhile is_digit r" "y # ys"] by simp
      with \<open>type_path kw d u = spaces_then (y # ys)\<close>
        \<open>type_path kw d (u @ t) = spaces_then ((y # ys) @ t)\<close>
        spaces_then_ext [of t "y # ys"] show ?thesis by simp
    qed
  qed
next
  case False
  then have short: "type_path kw d u = None" by (simp add: type_path_def)
  show ?thesis
  proof (cases "prefix kw (u @ t)")
    case True
    with False have "prefix u kw" using prefix_append_cases by blast
    then have "set u \<subseteq> set kw" by (rule set_mono_prefix)
    with kw have "\<forall>x\<in>set u. \<not> is_space x" by (auto dest: word_not_space)
    then show ?thesis by (simp add: sw_no_space)
  next
    case False
    then have "type_path kw d (u @ t) = None" by (simp add: type_path_def)
    with short show ?thesis by simp
  qed
qed

lemma types_ext: "Ext t (types u) (types (u @ t)) \<or> \<not> sw u"
proof (cases "sw u")
  case False
  then show ?thesis by simp
next
  case True
  then have "Ext t (type_path kw d u) (type_path kw d (u @ t))" if "\<forall>x\<in>set kw. is_word x" for kw d
    using type_path_ext [OF that, of t d u] by simp
  then show ?thesis
    by (simp add: types_def or_else_Ext)
qed

lemma vars_rem_ext:
  "vars_rem pre (u @ t) = map_option (\<lambda>r. r @ t) (vars_rem pre u) \<or> \<not> has_decl u \<or>
   (\<exists>r'. vars_rem pre u = Some r' \<and> \<not> has_decl r' \<and> vars_rem pre (u @ t) \<noteq> None)"
proof (cases "pre = [] \<or> hd pre = CHR 0x0A")
  case False
  then show ?thesis by (simp add: vars_rem_def)
next
  case True
  show ?thesis
  proof (cases rule: dropWhile_cases [where u = u and P = is_space and t = t])
    case all
    then show ?thesis by (simp add: has_decl_spaces)
  next
    case (stop y ys)
    with True have v: "vars_rem pre u = types (y # ys)" "vars_rem pre (u @ t) = types ((y # ys) @ t)"
      by (simp_all add: vars_rem_def)
    from stop have h: "has_decl u = sw (y # ys)" by (simp add: has_decl_def)
    from types_ext [of t "y # ys"] show ?thesis
      unfolding v h Ext_def using has_decl_spaces by blast
  qed
qed

lemma word_run_shorter: "word_run u = Some r \<Longrightarrow> length r < length u"
  by (cases u) (auto simp: word_run_def intro: le_imp_less_Suc length_dropWhile_le split: if_splits)

lemma vis_path_shorter: "vis_path kw u = Some r \<Longrightarrow> length r < length u"
proof -
  assume a: "vis_path kw u = Some r"
  then have "word_run (dropWhile is_space (drop (length kw) u)) = Some r"
    by (simp add: vis_path_def split: if_splits)
  from word_run_shorter [OF this]
  have "length r < length (dropWhile is_space (drop (length kw) u))" .
  also have "\<dots> \<le> length (drop (length kw) u)" by (rule length_dropWhile_le)
  also have "\<dots> \<le> length u" by simp
  finally show ?thesis .
qed

lemma or_else_Some: "or_else a b = Some r \<Longrightarrow> a = Some r \<or> b = Some r"
  by (cases a) simp_all

lemma vis_word_shorter: "vis_word u = Some r \<Longrightarrow> length r < length u"
  unfolding vis_word_def
  by (auto dest!: or_else_Some dest: vis_path_shorter word_run_shorter)

lemma spaces_then_shorter: "spaces_then u = Some r \<Longrightarrow> length r < length u"
proof -
  assume "spaces_then u = Some r"
  then have "vis_word (dropWhile is_space u) = Some r"
    by (simp add: spaces_then_def split: if_splits)
  from vis_word_shorter [OF this] have "length r < length (dropWhile is_space u)" .
  also have "\<dots> \<le> length u" by (rule length_dropWhile_le)
  finally show ?thesis .
qed

lemma type_path_shorter: "type_path kw d u = Some r \<Longrightarrow> length r < length u"
proof -
  assume "type_path kw d u = Some r"
  then have "spaces_then (if d then dropWhile is_digit (drop (length kw) u)
                          else drop (length kw) u) = Some r"
    by (simp add: type_path_def split: if_splits)
  from spaces_then_shorter [OF this]
  have "length r < length (if d then dropWhile is_digit (drop (length kw) u)
                           else drop (length kw) u)" .
  also have "\<dots> \<le> length (drop (length kw) u)"
    using length_dropWhile_le [of is_digit "drop (length kw) u"] by (cases d) simp_all
  also have "\<dots> \<le> length u" by simp
  finally show ?thesis .
qed

lemma types_shorter: "types u = Some r \<Longrightarrow> length r < length u"
  unfolding types_def
  by (auto dest!: or_else_Some dest: type_path_shorter)

lemma vars_rem_shorter: "vars_rem pre u = Some r \<Longrightarrow> length r < length u"
proof -
  assume "vars_rem pre u = Some r"
  then have "types (dropWhile is_space u) = Some r"
    by (simp add: vars_rem_def split: if_splits)
  from types_shorter [OF this] have "length r < length (dropWhile is_space u)" .
  also have "\<dots> \<le> length u" by (rule length_dropWhile_le)
  finally show ?thesis .
qed

lemma spaces_then_sw: "spaces_then v \<noteq> None \<Longrightarrow> sw v"
proof -
  assume a: "spaces_then v \<noteq> None"
  then have v: "v \<noteq> []" "is_space (hd v)" and w: "vis_word (dropWhile is_space v) \<noteq> None"
    by (simp_all add: spaces_then_def split: if_splits)
  from w have "dropWhile is_space v \<noteq> [] \<and> is_word (hd (dropWhile is_space v))"
    using vis_word_hd by blast
  then obtain y ys where "dropWhile is_space v = y # ys" "is_word y"
    by (cases "dropWhile is_space v") auto
  with v show ?thesis by (rule sw_spaces_word)
qed

lemma type_path_sw: "type_path kw d u \<noteq> None \<Longrightarrow> sw u"
proof -
  assume a: "type_path kw d u \<noteq> None"
  then have p: "prefix kw u" by (simp add: type_path_def split: if_splits)
  let ?v = "if d then dropWhile is_digit (drop (length kw) u) else drop (length kw) u"
  from a p have "spaces_then ?v \<noteq> None" by (simp add: type_path_def)
  then have "sw ?v" by (rule spaces_then_sw)
  moreover have "\<exists>a. u = a @ ?v"
  proof (cases d)
    case True
    have "u = (take (length kw) u @ takeWhile is_digit (drop (length kw) u)) @
              dropWhile is_digit (drop (length kw) u)"
      by simp
    with True show ?thesis by (metis (full_types))
  next
    case False
    have "u = take (length kw) u @ drop (length kw) u" by simp
    with False show ?thesis by (metis (full_types))
  qed
  ultimately show ?thesis using sw_append_left by metis
qed

lemma types_sw: "types u \<noteq> None \<Longrightarrow> sw u"
  unfolding types_def or_else_None_iff
  using type_path_sw by blast

lemma vars_rem_has_decl: "vars_rem pre u \<noteq> None \<Longrightarrow> has_decl u"
  by (auto simp: vars_rem_def has_decl_def types_sw split: if_splits)

lemma vars_mono:
  "length (findall storage_vars_re code) \<le> length (findall storage_vars_re (code @ extra))"
  unfolding findall_def
proof (rule finditer_mono [where NC = has_decl])
  fix pre rest
  have "vars_rem pre (rest @ extra) \<noteq> None \<Longrightarrow>
      attempt storage_vars_re pre (rest @ extra) \<noteq> None"
    using vars_closed [of pre "rest @ extra"] by (simp add: rem_None_iff [symmetric])
  then show "rem (attempt storage_vars_re pre (rest @ extra)) =
          map_option (\<lambda>r'. r' @ extra) (rem (attempt storage_vars_re pre rest)) \<or>
        \<not> has_decl rest \<or>
        (\<exists>r'. rem (attempt storage_vars_re pre rest) = Some r' \<and> \<not> has_decl r' \<and>
              attempt storage_vars_re pre (rest @ extra) \<noteq> None)"
    using vars_rem_ext [of pre rest extra] unfolding vars_closed by metis
next
  show "\<forall>pre u. attempt storage_vars_re pre u \<noteq> None \<longrightarrow> has_decl u"
    using vars_rem_has_decl by (simp add: rem_None_iff [symmetric] vars_closed)
next
  show "\<forall>x xs. has_decl xs \<longrightarrow> has_decl (x # xs)"
    by (simp add: has_decl_Cons)
next
  fix pre u r'
  assume "rem (attempt storage_vars_re pre u) = Some r'"
  then show "length r' < length u"
    by (simp add: vars_closed vars_rem_shorter del: rem_simps)
qed


subsection \<open>Sequences of literals and greedy runs\<close>

text \<open>
  The matcher on a sequence that satisfies \<open>det\<close> is \<open>parse\<close>. On a longer text \<open>parse\<close>
  gives the same result, with the appended text left over as well, unless the reading of
  the shorter text ran into its end. A pattern that ends with a character no earlier item
  admits cannot be found in a text without that character, so the scan of the longer text
  finds every match of the shorter one.
\<close>

lemma m_Eps_fun [simp]: "m Eps k = k"
  by (rule ext) simp

lemma starts_ok_rejects: "starts_ok c is \<Longrightarrow> rejects (m (rx is) k) (in_cset c)"
proof (induction "is" arbitrary: k rule: rx.induct)
  case 1
  then show ?case by simp
next
  case (2 kw "is")
  then show ?case by (simp add: rejects_lit del: lit.simps)
next
  case (3 d "is")
  from "3.prems" have d: "\<And>x. in_cset c x \<Longrightarrow> \<not> in_cset d x" and s: "starts_ok c is"
    by (simp_all add: disjoint_def)
  from "3.IH" [OF s] have "rejects (m (rx is) k) (in_cset c)" .
  with d have "rejects (m (Star d) (m (rx is) k)) (in_cset c)" by (rule rejects_Star)
  then show ?case by simp
next
  case (4 d "is")
  from "4.prems" have d: "\<And>x. in_cset c x \<Longrightarrow> \<not> in_cset d x"
    by (simp add: disjoint_def)
  then have "rejects (m (Plus d) (m (rx is) k)) (in_cset c)" by (rule rejects_Plus)
  then show ?case by simp
qed

lemma det_parse:
  "det is \<Longrightarrow> m (rx is) k (g, pre, u) =
     (case parse is u of None \<Rightarrow> None | Some (a, r) \<Rightarrow> k (g, rev a @ pre, r))"
proof (induction "is" arbitrary: k g pre u rule: rx.induct)
  case 1
  show ?case by simp
next
  case (2 kw "is")
  then have "det is" by simp
  note ih = "2.IH" [OF this]
  show ?case
    by (cases "parse is (drop (length kw) u)") (auto simp: m_lit ih simp del: lit.simps)
next
  case (3 c "is")
  then have d: "det is" and s: "starts_ok c is" by simp_all
  note ih = "3.IH" [OF d]
  have "m (rx (IStar c # is)) k (g, pre, u) = star c (m (rx is) k) g pre u" by simp
  also have "\<dots> = m (rx is) k (g, rev (takeWhile (in_cset c) u) @ pre, dropWhile (in_cset c) u)"
    by (rule star_det [OF starts_ok_rejects [OF s]])
  finally show ?case
    by (cases "parse is (dropWhile (in_cset c) u)") (auto simp: ih)
next
  case (4 c "is")
  then have d: "det is" and s: "starts_ok c is" by simp_all
  note ih = "4.IH" [OF d]
  have "m (rx (IPlus c # is)) k (g, pre, u) = m (Plus c) (m (rx is) k) (g, pre, u)" by simp
  also have "\<dots> = (if u \<noteq> [] \<and> in_cset c (hd u)
      then m (rx is) k (g, rev (takeWhile (in_cset c) u) @ pre, dropWhile (in_cset c) u)
      else None)"
    by (rule plus_det [OF starts_ok_rejects [OF s]])
  finally show ?case
    by (cases "parse is (dropWhile (in_cset c) u)") (auto simp: ih)
qed

lemma parse_text: "parse is u = Some (a, r) \<Longrightarrow> u = a @ r"
proof (induction "is" arbitrary: u a r rule: rx.induct)
  case 1
  then show ?case by simp
next
  case (2 kw "is")
  from "2.prems" obtain a' where p: "prefix kw u" "parse is (drop (length kw) u) = Some (a', r)"
    "a = kw @ a'"
    by (auto split: if_splits)
  from "2.IH" [OF p(2)] p(1,3) show ?case by (auto simp: prefix_def)
next
  case (3 c "is")
  from "3.prems" obtain a' where p: "parse is (dropWhile (in_cset c) u) = Some (a', r)"
    "a = takeWhile (in_cset c) u @ a'"
    by auto
  from "3.IH" [OF p(1)] p(2) show ?case
    by (metis append.assoc takeWhile_dropWhile_id)
next
  case (4 c "is")
  from "4.prems" obtain a' where p: "parse is (dropWhile (in_cset c) u) = Some (a', r)"
    "a = takeWhile (in_cset c) u @ a'"
    by (auto split: if_splits)
  from "4.IH" [OF p(1)] p(2) show ?case
    by (metis append.assoc takeWhile_dropWhile_id)
qed

lemma lift_pair_simps [simp]: "lift_pair t None = None" "lift_pair t (Some (a, r)) = Some (a, r @ t)"
  by (simp_all add: lift_pair_def)

lemma lift_pair_map:
  "lift_pair t (map_option (\<lambda>(a, r). (f a, r)) x) = map_option (\<lambda>(a, r). (f a, r)) (lift_pair t x)"
  by (cases x) auto

lemma parse_ext: "parse is (u @ t) = lift_pair t (parse is u) \<or> touched is u"
proof (induction "is" arbitrary: u rule: rx.induct)
  case 1
  show ?case by simp
next
  case (2 kw "is")
  show ?case
  proof (cases "prefix kw u")
    case True
    then have "prefix kw (u @ t)" by simp
    with True "2.IH" [of "drop (length kw) u"] show ?thesis
      by (auto simp: lift_pair_map prefix_def)
  next
    case False
    show ?thesis
    proof (cases "prefix kw (u @ t)")
      case True
      with False have "prefix u kw" using prefix_append_cases by blast
      with False have "strict_prefix u kw" by (auto simp: strict_prefix_def)
      with False show ?thesis by simp
    next
      case f: False
      with False show ?thesis by simp
    qed
  qed
next
  case (3 c "is")
  show ?case
  proof (cases rule: dropWhile_cases [where u = u and P = "in_cset c" and t = t])
    case all
    then show ?thesis by simp
  next
    case (stop y ys)
    then have tw: "takeWhile (in_cset c) (u @ t) = takeWhile (in_cset c) u"
      by (metis dropWhile_eq_Nil_conv list.distinct(1) takeWhile_append1)
    from "3.IH" [of "y # ys"] stop tw show ?thesis
      by (auto simp: lift_pair_map)
  qed
next
  case (4 c "is")
  show ?case
  proof (cases "u = []")
    case True
    then show ?thesis by simp
  next
    case ne: False
    show ?thesis
    proof (cases "in_cset c (hd u)")
      case False
      with ne show ?thesis by simp
    next
      case True
      show ?thesis
      proof (cases rule: dropWhile_cases [where u = u and P = "in_cset c" and t = t])
        case all
        with ne True show ?thesis by simp
      next
        case (stop y ys)
        then have tw: "takeWhile (in_cset c) (u @ t) = takeWhile (in_cset c) u"
          by (metis dropWhile_eq_Nil_conv list.distinct(1) takeWhile_append1)
        from "4.IH" [of "y # ys"] stop tw ne True show ?thesis
          by (auto simp: lift_pair_map)
      qed
    qed
  qed
qed

lemma parse_final: "parse (is @ [ILit kw]) u = Some (a, r) \<Longrightarrow> \<exists>a'. a = a' @ kw"
proof (induction "is" arbitrary: u a rule: rx.induct)
  case 1
  then show ?case by (auto split: if_splits)
next
  case (2 kw' "is")
  from "2.prems" obtain a' where "parse (is @ [ILit kw]) (drop (length kw') u) = Some (a', r)"
    "a = kw' @ a'"
    by (auto split: if_splits)
  with "2.IH" [of "drop (length kw') u" a'] show ?case by auto
next
  case (3 c "is")
  from "3.prems" obtain a' where "parse (is @ [ILit kw]) (dropWhile (in_cset c) u) = Some (a', r)"
    "a = takeWhile (in_cset c) u @ a'"
    by auto
  with "3.IH" [of "dropWhile (in_cset c) u" a'] show ?case by auto
next
  case (4 c "is")
  from "4.prems" obtain a' where "parse (is @ [ILit kw]) (dropWhile (in_cset c) u) = Some (a', r)"
    "a = takeWhile (in_cset c) u @ a'"
    by (auto split: if_splits)
  with "4.IH" [of "dropWhile (in_cset c) u" a'] show ?case by auto
qed

lemma set_split_While: "set u = set (takeWhile P u) \<union> set (dropWhile P u)"
  by (metis set_append takeWhile_dropWhile_id)

lemma touched_admits:
  "touched (is @ [ILit [c]]) u \<Longrightarrow> x \<in> set u \<Longrightarrow> \<exists>i\<in>set is. admits i x"
proof (induction "is" arbitrary: u rule: rx.induct)
  case 1
  then show ?case by (cases u) (auto split: if_splits)
next
  case (2 kw "is")
  show ?case
  proof (cases "prefix kw u")
    case True
    then obtain v where u: "u = kw @ v" by (auto simp: prefix_def)
    with "2.prems" have t: "touched (is @ [ILit [c]]) v" by simp
    from "2.prems"(2) u have "x \<in> set kw \<or> x \<in> set v" by simp
    with "2.IH" [OF t] show ?thesis by auto
  next
    case False
    with "2.prems" have "strict_prefix u kw" by simp
    with "2.prems"(2) have "x \<in> set kw" by (auto simp: strict_prefix_def prefix_def)
    then show ?thesis by simp
  qed
next
  case (3 d "is")
  from "3.prems"(2) have "x \<in> set (takeWhile (in_cset d) u) \<or> x \<in> set (dropWhile (in_cset d) u)"
    using set_split_While [of u "in_cset d"] by simp
  then show ?case
  proof
    assume "x \<in> set (takeWhile (in_cset d) u)"
    then have "in_cset d x" by (rule set_takeWhileD [THEN conjunct2])
    then show ?thesis by simp
  next
    assume x: "x \<in> set (dropWhile (in_cset d) u)"
    then have "dropWhile (in_cset d) u \<noteq> []" by (auto simp del: dropWhile_eq_Nil_conv)
    with "3.prems"(1) have "touched (is @ [ILit [c]]) (dropWhile (in_cset d) u)"
      by (simp del: dropWhile_eq_Nil_conv)
    from "3.IH" [OF this x] show ?thesis by auto
  qed
next
  case (4 d "is")
  from "4.prems"(2) have "x \<in> set (takeWhile (in_cset d) u) \<or> x \<in> set (dropWhile (in_cset d) u)"
    using set_split_While [of u "in_cset d"] by simp
  then show ?case
  proof
    assume "x \<in> set (takeWhile (in_cset d) u)"
    then have "in_cset d x" by (rule set_takeWhileD [THEN conjunct2])
    then show ?thesis by simp
  next
    assume x: "x \<in> set (dropWhile (in_cset d) u)"
    then have "dropWhile (in_cset d) u \<noteq> []" by (auto simp del: dropWhile_eq_Nil_conv)
    with "4.prems"(1) x have "touched (is @ [ILit [c]]) (dropWhile (in_cset d) u)"
      by (auto simp del: dropWhile_eq_Nil_conv)
    from "4.IH" [OF this x] show ?thesis by auto
  qed
qed

lemma det_attempt:
  assumes "\<And>st. m r Some st = m (rx is) Some st" and "det is"
  shows "attempt r pre u =
     (case parse is u of None \<Rightarrow> None | Some (a, r') \<Rightarrow> Some ([], rev a @ pre, r'))"
  by (simp add: attempt_def assms(1) det_parse [OF assms(2)])

lemma det_rem:
  assumes "\<And>st. m r Some st = m (rx is) Some st" and "det is"
  shows "rem (attempt r pre u) = map_option snd (parse is u)"
  by (cases "parse is u") (auto simp: det_attempt [OF assms])

lemma det_mono:
  assumes r: "\<And>st. m r Some st = m (rx (its @ [ILit [c]])) Some st"
    and d: "det (its @ [ILit [c]])"
    and na: "\<forall>i\<in>set its. \<not> admits i c"
  shows "length (finditer r pre rest) \<le> length (finditer r pre (rest @ t))"
proof (rule finditer_mono [where NC = "\<lambda>u. c \<in> set u"])
  note rm = det_rem [OF r d]
  fix pre rest
  from parse_ext [of "its @ [ILit [c]]" rest t]
  show "rem (attempt r pre (rest @ t)) = map_option (\<lambda>r'. r' @ t) (rem (attempt r pre rest)) \<or>
      c \<notin> set rest \<or>
      (\<exists>r'. rem (attempt r pre rest) = Some r' \<and> c \<notin> set r' \<and> attempt r pre (rest @ t) \<noteq> None)"
  proof
    assume "parse (its @ [ILit [c]]) (rest @ t) = lift_pair t (parse (its @ [ILit [c]]) rest)"
    then have "rem (attempt r pre (rest @ t)) = map_option (\<lambda>r'. r' @ t) (rem (attempt r pre rest))"
      by (cases "parse (its @ [ILit [c]]) rest") (auto simp: rm)
    then show ?thesis by simp
  next
    assume "touched (its @ [ILit [c]]) rest"
    from touched_admits [OF this] na have "c \<notin> set rest" by blast
    then show ?thesis by simp
  qed
next
  note rm = det_rem [OF r d]
  show "\<forall>pre u. attempt r pre u \<noteq> None \<longrightarrow> c \<in> set u"
  proof (intro allI impI)
    fix pre u
    assume "attempt r pre u \<noteq> None"
    then have "rem (attempt r pre u) \<noteq> None" by (auto simp: rem_def)
    then obtain a r' where p: "parse (its @ [ILit [c]]) u = Some (a, r')"
      by (auto simp: rm)
    from parse_final [OF p] parse_text [OF p] show "c \<in> set u" by auto
  qed
next
  show "\<forall>x xs. c \<in> set xs \<longrightarrow> c \<in> set (x # xs)" by simp
next
  note rm = det_rem [OF r d]
  fix pre u r'
  assume "rem (attempt r pre u) = Some r'"
  then obtain a where p: "parse (its @ [ILit [c]]) u = Some (a, r')"
    by (auto simp: rm)
  from parse_final [OF p] parse_text [OF p] show "length r' < length u" by auto
qed

lemma disjoint_simps [simp]:
  "disjoint Word Space" "disjoint Space Word" "disjoint Space Digit" "disjoint Digit Space"
  by (auto simp: disjoint_def word_not_space dest: digit_word)

lemma lit_single: "lit [c] = Atom (Lit c)"
  by simp

lemma array_push_mono:
  "length (findall array_push_re code) \<le> length (findall array_push_re (code @ extra))"
  unfolding findall_def
  by (rule det_mono [where c = "CHR ''(''" and its = "[ILit ''.push'', IStar Space]"])
     (simp_all add: array_push_re_def is_space_def del: lit.simps(3))

lemma array_pop_mono:
  "length (findall array_pop_re code) \<le> length (findall array_pop_re (code @ extra))"
  unfolding findall_def
  by (rule det_mono [where c = "CHR ''(''" and its = "[ILit ''.pop'', IStar Space]"])
     (simp_all add: array_pop_re_def is_space_def del: lit.simps(3))

lemma delegate_calls_mono:
  "length (findall delegate_calls_re code) \<le> length (findall delegate_calls_re (code @ extra))"
  unfolding findall_def
  by (rule det_mono [where c = "CHR ''(''" and its = "[ILit ''delegatecall'', IStar Space]"])
     (simp_all add: delegate_calls_re_def is_space_def del: lit.simps(3))

lemma array_access_mono:
  "length (findall array_access_re code) \<le> length (findall array_access_re (code @ extra))"
  unfolding findall_def
  by (rule det_mono [where c = "CHR '']''" and
        its = "[IPlus Word, IStar Space, ILit ''['', IStar Space, IPlus Digit, IStar Space]"])
     (simp_all add: array_access_re_def is_space_def is_word_def is_digit_def)

lemma external_calls_mono:
  "length (findall external_calls_re code) \<le> length (findall external_calls_re (code @ extra))"
  unfolding findall_def
  by (rule det_mono [where c = "CHR ''(''" and
        its = "[IPlus Word, ILit ''.'', IPlus Word, IStar Space]"])
     (simp_all add: external_calls_re_def is_space_def is_word_def)

lemma index_write_mono:
  "length (findall index_write_re code) \<le> length (findall index_write_re (code @ extra))"
  unfolding findall_def
  by (rule det_mono [where c = "CHR ''=''" and
        its = "[IPlus Word, IStar Space, ILit ''['', IStar Space, IPlus Word, IStar Space,
                 ILit '']'', IStar Space]"])
     (simp_all add: index_write_re_def is_space_def is_word_def)

lemma finditer_prefix:
  assumes ext: "\<And>pre rest.
      attempt r pre (rest @ t) =
        map_option (\<lambda>(g, p, r'). (g, p, r' @ t)) (attempt r pre rest) \<or> \<not> NC rest"
    and ncm: "\<forall>pre u. attempt r pre u \<noteq> None \<longrightarrow> NC u"
    and ncs: "\<forall>x xs. NC xs \<longrightarrow> NC (x # xs)"
    and shorter: "\<And>pre u g p r'. attempt r pre u = Some (g, p, r') \<Longrightarrow> length r' < length u"
  shows "prefix (finditer r pre rest) (finditer r pre (rest @ t))"
proof (induction "length rest" arbitrary: pre rest rule: less_induct)
  case less
  note dead = finditer_dead [OF ncm ncs]
  from ext [of pre rest] show ?case
  proof
    assume "\<not> NC rest"
    from dead [OF this] show ?thesis by simp
  next
    assume stable: "attempt r pre (rest @ t) =
        map_option (\<lambda>(g, p, r'). (g, p, r' @ t)) (attempt r pre rest)"
    show ?thesis
    proof (cases "attempt r pre rest")
      case None
      with stable have n: "attempt r pre (rest @ t) = None" by simp
      show ?thesis
      proof (cases rest)
        case Nil
        with None show ?thesis by (simp add: finditer.simps [of r pre "[]"] attempt_def)
      next
        case (Cons x xs)
        with less [of xs "x # pre"] None n show ?thesis
          by (simp add: finditer.simps [of r pre "x # xs"]
              finditer.simps [of r pre "x # xs @ t"] attempt_def)
      qed
    next
      case (Some st)
      obtain g p r' where st: "st = (g, p, r')" by (cases st)
      with Some stable have l: "attempt r pre (rest @ t) = Some (g, p, r' @ t)" by simp
      from Some st have sh: "length r' < length rest" using shorter by simp
      with less [OF sh, of p] Some st l show ?thesis
        by (simp add: finditer.simps [of r pre rest] finditer.simps [of r pre "rest @ t"]
            attempt_def)
    qed
  qed
qed

lemma parse_append:
  "parse (is1 @ is2) u =
     (case parse is1 u of None \<Rightarrow> None
      | Some (a1, r1) \<Rightarrow> map_option (\<lambda>(a2, r). (a1 @ a2, r)) (parse is2 r1))"
proof (induction is1 arbitrary: u rule: rx.induct)
  case 1
  show ?case by (cases "parse is2 u") auto
next
  case (2 kw "is")
  show ?case
    by (cases "parse is (drop (length kw) u)"; cases "parse is2 (snd (the (parse is (drop (length kw) u))))")
       (auto simp: "2.IH")
next
  case (3 c "is")
  show ?case
    by (cases "parse is (dropWhile (in_cset c) u)";
        cases "parse is2 (snd (the (parse is (dropWhile (in_cset c) u))))")
       (auto simp: "3.IH")
next
  case (4 c "is")
  show ?case
    by (cases "parse is (dropWhile (in_cset c) u)";
        cases "parse is2 (snd (the (parse is (dropWhile (in_cset c) u))))")
       (auto simp: "4.IH")
qed

lemma parse_admits:
  "parse is u = Some (a, r) \<Longrightarrow> x \<in> set a \<Longrightarrow> \<exists>i\<in>set is. admits i x"
proof (induction "is" arbitrary: u a rule: rx.induct)
  case 1
  then show ?case by simp
next
  case (2 kw "is")
  from "2.prems"(1) obtain a' where p: "parse is (drop (length kw) u) = Some (a', r)" "a = kw @ a'"
    by (auto split: if_splits)
  with "2.prems"(2) have "x \<in> set kw \<or> x \<in> set a'" by simp
  with "2.IH" [OF p(1)] show ?case by auto
next
  case (3 c "is")
  from "3.prems"(1) obtain a' where p: "parse is (dropWhile (in_cset c) u) = Some (a', r)"
    "a = takeWhile (in_cset c) u @ a'"
    by auto
  with "3.prems"(2) have "x \<in> set (takeWhile (in_cset c) u) \<or> x \<in> set a'" by simp
  with "3.IH" [OF p(1)] show ?case by (auto dest: set_takeWhileD)
next
  case (4 c "is")
  from "4.prems"(1) obtain a' where p: "parse is (dropWhile (in_cset c) u) = Some (a', r)"
    "a = takeWhile (in_cset c) u @ a'"
    by (auto split: if_splits)
  with "4.prems"(2) have "x \<in> set (takeWhile (in_cset c) u) \<or> x \<in> set a'" by simp
  with "4.IH" [OF p(1)] show ?case by (auto dest: set_takeWhileD)
qed

lemma touched_append:
  "touched (is1 @ is2) u \<Longrightarrow>
   touched (is1 @ [ILit [c]]) u \<or> (\<exists>a r. parse is1 u = Some (a, r) \<and> touched is2 r)"
proof (induction is1 arbitrary: u rule: rx.induct)
  case 1
  then show ?case by simp
next
  case (2 kw "is")
  show ?case
  proof (cases "prefix kw u")
    case True
    with "2.prems" have "touched (is @ is2) (drop (length kw) u)" by simp
    from "2.IH" [OF this] True show ?thesis by auto
  next
    case False
    with "2.prems" show ?thesis by simp
  qed
next
  case (3 d "is")
  show ?case
  proof (cases "dropWhile (in_cset d) u = []")
    case True
    then show ?thesis by (simp del: dropWhile_eq_Nil_conv)
  next
    case False
    with "3.prems" have "touched (is @ is2) (dropWhile (in_cset d) u)"
      by (simp del: dropWhile_eq_Nil_conv)
    from "3.IH" [OF this] show ?thesis by (auto simp del: dropWhile_eq_Nil_conv)
  qed
next
  case (4 d "is")
  show ?case
  proof (cases "u = [] \<or> dropWhile (in_cset d) u = []")
    case True
    with "4.prems" show ?thesis by (auto simp del: dropWhile_eq_Nil_conv)
  next
    case False
    with "4.prems" have h: "in_cset d (hd u)" "touched (is @ is2) (dropWhile (in_cset d) u)"
      by (auto simp del: dropWhile_eq_Nil_conv)
    from "4.IH" [OF h(2)] h(1) False show ?thesis by (auto simp del: dropWhile_eq_Nil_conv)
  qed
qed

subsection \<open>Loops found in a longer text\<close>

text \<open>
  The matches of a loop pattern in a text are the first matches of the pattern in any
  longer text, bodies included.
\<close>

lemma in_cset_Not_fun [simp]: "in_cset (Not c) = (\<lambda>x. x \<noteq> c)"
  by (rule ext) simp

lemma det_loop_head: "det (loop_head kw)"
  by (simp add: loop_head_def is_space_def)

lemma body_closed:
  "m (Grp 1 (Plus (Not CHR ''}''))) (m (Atom (Lit CHR ''}'')) Some) ([], p, r1) =
     (if r1 \<noteq> [] \<and> hd r1 \<noteq> CHR ''}''
      then (case dropWhile (\<lambda>x. x \<noteq> CHR ''}'') r1 of
              [] \<Rightarrow> None
            | x # r3 \<Rightarrow> Some ([(1, takeWhile (\<lambda>x. x \<noteq> CHR ''}'') r1)],
                CHR ''}'' # rev (takeWhile (\<lambda>x. x \<noteq> CHR ''}'') r1) @ p, r3))
      else None)"
proof -
  let ?k = "\<lambda>(g', pre', rest'). m (Atom (Lit CHR ''}'')) Some
      ((1, rev (take (length pre' - length p) pre')) # g', pre', rest')"
  have rj: "rejects ?k (in_cset (Not CHR ''}''))"
    by (simp add: rejects_def)
  have "m (Grp 1 (Plus (Not CHR ''}''))) (m (Atom (Lit CHR ''}'')) Some) ([], p, r1) =
        m (Plus (Not CHR ''}'')) ?k ([], p, r1)"
    by (simp del: m.simps(7))
  also note plus_det [OF rj]
  finally show ?thesis
    using hd_dropWhile [of "\<lambda>x. x \<noteq> CHR ''}''" r1]
    by (cases "dropWhile (\<lambda>x. x \<noteq> CHR ''}'') r1") (auto simp del: dropWhile_eq_Nil_conv)
qed

lemma loop_attempt:
  "attempt (loop_re kw) pre u =
     (case parse (loop_head kw) u of None \<Rightarrow> None | Some (a, r1) \<Rightarrow> loop_body a pre r1)"
proof -
  have "attempt (loop_re kw) pre u =
        m (rx (loop_head kw)) (m (Grp 1 (Plus (Not CHR ''}''))) (m (Atom (Lit CHR ''}'')) Some))
          ([], pre, u)"
    by (simp add: attempt_def loop_re_def loop_head_def del: m.simps lit.simps(3))
  also note det_parse [OF det_loop_head]
  finally show ?thesis
    by (cases "parse (loop_head kw) u")
       (auto simp: body_closed loop_body_def simp del: m.simps One_nat_def)
qed

lemma loop_head_shape:
  assumes p: "parse (loop_head kw) u = Some (a, r1)" and kw: "CHR '')'' \<notin> set kw"
  shows "\<exists>a1 a2. u = a1 @ CHR '')'' # a2 @ r1 \<and> a = a1 @ CHR '')'' # a2 \<and>
           CHR '')'' \<notin> set a1 \<and> CHR ''}'' \<notin> set a2"
proof -
  let ?h1 = "[ILit kw, IStar Space, ILit ''('', IPlus (Not CHR '')'')]"
  let ?h2 = "[IStar Space, ILit ''{'']"
  have ph: "parse (loop_head kw) u =
      (case parse ?h1 u of None \<Rightarrow> None
       | Some (a1, r1) \<Rightarrow> map_option (\<lambda>(a2, r). (a1 @ a2, r)) (parse (ILit '')'' # ?h2) r1))"
    unfolding loop_head_def by (rule parse_append)
  from p ph obtain a1 ra where p1: "parse ?h1 u = Some (a1, ra)"
    by (auto split: option.splits simp del: parse.simps)
  with p ph obtain a2 where p2: "parse (ILit '')'' # ?h2) ra = Some (a2, r1)" and a: "a = a1 @ a2"
    by (auto simp del: parse.simps)
  from p2 obtain a3 where p3: "parse ?h2 (drop 1 ra) = Some (a3, r1)" and a2: "a2 = CHR '')'' # a3"
    by (auto split: if_splits)
  have "CHR '')'' \<notin> set a1"
  proof
    assume "CHR '')'' \<in> set a1"
    from parse_admits [OF p1 this] kw show False by (auto simp: is_space_def)
  qed
  moreover have "CHR ''}'' \<notin> set a3"
  proof
    assume "CHR ''}'' \<in> set a3"
    from parse_admits [OF p3 this] show False by (auto simp: is_space_def)
  qed
  moreover from parse_text [OF p] a a2 have "u = a1 @ CHR '')'' # a3 @ r1" by simp
  ultimately show ?thesis using a a2 by blast
qed

lemma after_paren:
  "CHR '')'' \<notin> set a1 \<Longrightarrow>
   dropWhile (\<lambda>x. x \<noteq> CHR '')'') (a1 @ CHR '')'' # b) = CHR '')'' # b"
  by (induction a1) auto

lemma loop_partial:
  assumes p: "parse (loop_head kw) u = Some (a, r1)" and kw: "CHR '')'' \<notin> set kw"
  shows "loop_possible u = (CHR ''}'' \<in> set r1)"
proof -
  from loop_head_shape [OF p kw] obtain a1 a2 where
    s: "u = a1 @ CHR '')'' # a2 @ r1" "CHR '')'' \<notin> set a1" "CHR ''}'' \<notin> set a2"
    by blast
  then show ?thesis by (simp add: loop_possible_def after_paren)
qed

lemma loop_touched:
  assumes t: "touched (loop_head kw) u" and kw: "CHR '')'' \<notin> set kw"
  shows "\<not> loop_possible u"
proof -
  let ?h1 = "[ILit kw, IStar Space, ILit ''('', IPlus (Not CHR '')'')]"
  let ?h2 = "[IStar Space, ILit ''{'']"
  from t have "touched (?h1 @ ILit '')'' # ?h2) u" by (simp add: loop_head_def)
  from touched_append [OF this, of "CHR '')''"] show ?thesis
  proof
    assume t1: "touched (?h1 @ [ILit '')'']) u"
    have "CHR '')'' \<notin> set u"
    proof
      assume "CHR '')'' \<in> set u"
      from touched_admits [OF t1 this] kw show False by (auto simp: is_space_def)
    qed
    then have "dropWhile (\<lambda>x. x \<noteq> CHR '')'') u = []" by auto
    then show ?thesis by (simp add: loop_possible_def del: dropWhile_eq_Nil_conv)
  next
    assume "\<exists>a r. parse ?h1 u = Some (a, r) \<and> touched (ILit '')'' # ?h2) r"
    then obtain a1 r where p1: "parse ?h1 u = Some (a1, r)" and t2: "touched (ILit '')'' # ?h2) r"
      by blast
    have n1: "CHR '')'' \<notin> set a1"
    proof
      assume "CHR '')'' \<in> set a1"
      from parse_admits [OF p1 this] kw show False by (auto simp: is_space_def)
    qed
    from parse_text [OF p1] have u: "u = a1 @ r" .
    show ?thesis
    proof (cases r)
      case Nil
      with u n1 have "dropWhile (\<lambda>x. x \<noteq> CHR '')'') u = []" by auto
      then show ?thesis by (simp add: loop_possible_def del: dropWhile_eq_Nil_conv)
    next
      case (Cons y ys)
      with t2 have y: "y = CHR '')''" and t3: "touched ([IStar Space] @ [ILit ''{'']) ys"
        by (auto split: if_splits simp del: dropWhile_eq_Nil_conv)
      have "CHR ''}'' \<notin> set ys"
      proof
        assume "CHR ''}'' \<in> set ys"
        from touched_admits [OF t3 this] show False by (auto simp: is_space_def)
      qed
      with u Cons y n1 show ?thesis by (simp add: loop_possible_def after_paren)
    qed
  qed
qed

lemma loop_possible_Cons: "loop_possible xs \<Longrightarrow> loop_possible (x # xs)"
  by (auto simp: loop_possible_def dest: set_dropWhileD)

lemma loop_match_possible:
  assumes "attempt (loop_re kw) pre u \<noteq> None" and kw: "CHR '')'' \<notin> set kw"
  shows "loop_possible u"
proof -
  from assms(1) obtain a r1 where p: "parse (loop_head kw) u = Some (a, r1)"
    and b: "loop_body a pre r1 \<noteq> None"
    by (auto simp: loop_attempt split: option.splits)
  from b have "dropWhile (\<lambda>x. x \<noteq> CHR ''}'') r1 \<noteq> []"
    by (auto simp: loop_body_def split: if_splits list.splits simp del: dropWhile_eq_Nil_conv)
  then have "CHR ''}'' \<in> set r1" by auto
  with loop_partial [OF p kw] show ?thesis by simp
qed

lemma loop_shorter:
  assumes "attempt (loop_re kw) pre u = Some (g, p, r')"
  shows "length r' < length u"
proof -
  from assms obtain a r1 where p: "parse (loop_head kw) u = Some (a, r1)"
    and b: "loop_body a pre r1 = Some (g, p, r')"
    by (auto simp: loop_attempt split: option.splits)
  from b obtain x where "dropWhile (\<lambda>x. x \<noteq> CHR ''}'') r1 = x # r'"
    by (auto simp: loop_body_def split: if_splits list.splits)
  then have "length (x # r') \<le> length r1"
    by (metis length_dropWhile_le)
  with parse_text [OF p] show ?thesis by simp
qed

lemma loop_body_ext:
  assumes "CHR ''}'' \<in> set r1"
  shows "loop_body a pre (r1 @ t) = map_option (\<lambda>(g, p, r'). (g, p, r' @ t)) (loop_body a pre r1)"
proof -
  from assms have ne: "r1 \<noteq> []" by auto
  from assms have tw: "takeWhile (\<lambda>x. x \<noteq> CHR ''}'') (r1 @ t) = takeWhile (\<lambda>x. x \<noteq> CHR ''}'') r1"
    by (simp add: takeWhile_append1 [where x = "CHR ''}''"])
  from assms have dw: "dropWhile (\<lambda>x. x \<noteq> CHR ''}'') (r1 @ t) =
      dropWhile (\<lambda>x. x \<noteq> CHR ''}'') r1 @ t"
    by (simp add: dropWhile_append1 [where x = "CHR ''}''"])
  from assms have "dropWhile (\<lambda>x. x \<noteq> CHR ''}'') r1 \<noteq> []" by auto
  then obtain x r3 where d: "dropWhile (\<lambda>x. x \<noteq> CHR ''}'') r1 = x # r3"
    by (cases "dropWhile (\<lambda>x. x \<noteq> CHR ''}'') r1") auto
  from ne show ?thesis
    by (simp add: loop_body_def tw dw d del: dropWhile_eq_Nil_conv)
qed

lemma loop_ext:
  assumes kw: "CHR '')'' \<notin> set kw"
  shows "attempt (loop_re kw) pre (u @ t) =
           map_option (\<lambda>(g, p, r'). (g, p, r' @ t)) (attempt (loop_re kw) pre u) \<or>
         \<not> loop_possible u"
proof (cases "touched (loop_head kw) u")
  case True
  from loop_touched [OF this kw] show ?thesis by simp
next
  case False
  with parse_ext [of "loop_head kw" u t]
  have e: "parse (loop_head kw) (u @ t) = lift_pair t (parse (loop_head kw) u)" by simp
  show ?thesis
  proof (cases "parse (loop_head kw) u")
    case None
    with e show ?thesis by (simp add: loop_attempt)
  next
    case (Some ar)
    obtain a r1 where ar: "ar = (a, r1)" by (cases ar)
    show ?thesis
    proof (cases "CHR ''}'' \<in> set r1")
      case True
      from loop_body_ext [OF this] Some ar e show ?thesis by (simp add: loop_attempt)
    next
      case False
      with loop_partial [OF Some [unfolded ar] kw] show ?thesis by simp
    qed
  qed
qed

lemma loop_prefix:
  assumes kw: "CHR '')'' \<notin> set kw"
  shows "prefix (finditer (loop_re kw) pre rest) (finditer (loop_re kw) pre (rest @ t))"
proof (rule finditer_prefix [where NC = loop_possible])
  fix pre rest
  show "attempt (loop_re kw) pre (rest @ t) =
          map_option (\<lambda>(g, p, r'). (g, p, r' @ t)) (attempt (loop_re kw) pre rest) \<or>
        \<not> loop_possible rest"
    by (rule loop_ext [OF kw])
next
  show "\<forall>pre u. attempt (loop_re kw) pre u \<noteq> None \<longrightarrow> loop_possible u"
    using loop_match_possible [OF _ kw] by blast
next
  show "\<forall>x xs. loop_possible xs \<longrightarrow> loop_possible (x # xs)"
    using loop_possible_Cons by blast
next
  fix pre u g p r'
  assume "attempt (loop_re kw) pre u = Some (g, p, r')"
  then show "length r' < length u" by (rule loop_shorter)
qed

lemma for_loops_prefix:
  "prefix (findall for_loops_re code) (findall for_loops_re (code @ extra))"
  using loop_prefix [of "''for''" "[]" code extra]
  by (simp add: findall_def for_loops_re_def loop_re_def)

lemma while_loops_prefix:
  "prefix (findall while_loops_re code) (findall while_loops_re (code @ extra))"
  using loop_prefix [of "''while''" "[]" code extra]
  by (simp add: findall_def while_loops_re_def loop_re_def)

subsection \<open>Function headers found in a longer text\<close>

text \<open>
  Behind optional white space an optional part can be tried at every position of the white
  space; only the position behind all of it can succeed. With this the attempt of the
  function pattern is \<open>fn_rem\<close>, and the number of function headers does not go down when
  text is appended.
\<close>

lemma reqD: "req k k' \<Longrightarrow> rem (k (g, p, r)) = rem (k' (g', p, r))"
  by (simp add: req_def)

lemma req_Some: "req Some Some"
  by (simp add: req_def)

lemma star_req:
  assumes "req k k'"
  shows "rem (star c k g p u) = rem (star c k' g' p u)"
proof (induction u arbitrary: p)
  case Nil
  show ?case by (simp add: reqD [OF assms])
next
  case (Cons x xs)
  show ?case
    by (simp add: rem_or_else Cons.IH reqD [OF assms, of g _ _ g'])
qed

lemma strip_rem:
  "req k k' \<Longrightarrow> rem (m r k (g, p, u)) = rem (m (strip r) k' (g', p, u))"
proof (induction r arbitrary: k k' g g' p u)
  case Eps
  then show ?case by (simp add: reqD)
next
  case (Atom c)
  then show ?case by (cases u) (simp_all add: reqD)
next
  case (Seq a b)
  have "req (m b k) (m (strip b) k')"
    unfolding req_def using Seq.IH(2) [OF Seq.prems] by blast
  from Seq.IH(1) [OF this] show ?case by (simp del: m.simps)
next
  case (Alt a b)
  show ?case
    unfolding strip.simps rem_Alt
    using Alt.IH(1) [OF Alt.prems, of g p u g'] Alt.IH(2) [OF Alt.prems, of g p u g'] by simp
next
  case (Opt a)
  show ?case
    unfolding strip.simps rem_Opt
    using Opt.IH [OF Opt.prems, of g p u g'] reqD [OF Opt.prems, of g p u g'] by simp
next
  case (Star c)
  then show ?case by (simp add: star_req)
next
  case (Plus c)
  then show ?case by (cases u) (simp_all add: star_req)
next
  case Bol
  then show ?case by (simp add: reqD)
next
  case Wordb
  then show ?case by (simp add: reqD)
next
  case (NotAhead a)
  from NotAhead.IH [OF req_Some, of g p u g']
  have "m a Some (g, p, u) = None \<longleftrightarrow> m (strip a) Some (g', p, u) = None"
    by (metis rem_None_iff)
  with reqD [OF NotAhead.prems, of g p u g'] show ?case
    by (auto split: option.splits)
next
  case (Grp n a)
  have "req (\<lambda>(g', pre', rest'). k ((n, rev (take (length pre' - length p) pre')) # g', pre', rest')) k'"
    using Grp.prems by (simp add: req_def)
  from Grp.IH [OF this] show ?case by simp
qed

lemma strip_lit [simp]: "strip (lit kw) = lit kw"
  by (induction kw rule: lit.induct) simp_all

lemma strip_seq [simp]: "strip (seq rs) = seq (map strip rs)"
  by (induction rs rule: seq.induct) simp_all

lemma strip_alts [simp]: "strip (alts rs) = alts (map strip rs)"
  by (induction rs rule: alts.induct) simp_all

lemma attempt_strip: "rem (attempt r pre u) = rem (m (strip r) Some ([], pre, u))"
  unfolding attempt_def by (rule strip_rem [OF req_Some])

lemma star_absorb:
  assumes k: "\<And>g p u. rem (k (g, p, u)) = f u"
    and ab: "\<And>u. f (dropWhile (in_cset c) u) = None \<Longrightarrow> f u = None"
  shows "rem (star c k g p u) = f (dropWhile (in_cset c) u)"
proof (induction u arbitrary: p)
  case Nil
  show ?case by (simp add: k)
next
  case (Cons x xs)
  show ?case
  proof (cases "in_cset c x")
    case False
    then show ?thesis by (simp add: k)
  next
    case True
    show ?thesis
    proof (cases "f (dropWhile (in_cset c) xs)")
      case None
      with ab [of "x # xs"] True have "f (x # xs) = None" by simp
      with None True Cons.IH [of "x # p"] show ?thesis
        by (simp add: rem_or_else k)
    next
      case (Some r)
      with True Cons.IH [of "x # p"] show ?thesis
        by (simp add: rem_or_else k)
    qed
  qed
qed

lemma det_rx_rem: "det its \<Longrightarrow> rem (m (rx its) Some (g, p, u)) = pr its u"
  by (cases "parse its u") (auto simp: det_parse pr_def)

lemma det_brace: "det brace_items"
  by (simp add: brace_items_def is_space_def)

lemma det_returns: "det returns_items"
  by (simp add: returns_items_def brace_items_def is_space_def)

lemma det_fn_head: "det fn_head"
  by (simp add: fn_head_def is_space_def is_word_def)

lemma skip_idem: "skip f (dropWhile is_space u) = skip f u"
  by (simp add: skip_def)

lemma pr_Star_skip: "pr (IStar Space # its) (dropWhile is_space u) = pr (IStar Space # its) u"
  by (cases "parse its (dropWhile is_space u)") (auto simp: pr_def)

lemma prefix_space:
  "kw \<noteq> [] \<Longrightarrow> \<not> is_space (hd kw) \<Longrightarrow> is_space x \<Longrightarrow> \<not> prefix kw (x # xs)"
  by (cases kw) auto

lemma opt_kw_None: "opt_kw kws f u = None \<Longrightarrow> f u = None"
  by (induction kws) (simp_all add: or_else_None_iff)

lemma opt_kw_space:
  "\<forall>kw\<in>set kws. kw \<noteq> [] \<and> \<not> is_space (hd kw) \<Longrightarrow> is_space x \<Longrightarrow>
   opt_kw kws f (x # xs) = f (x # xs)"
  by (induction kws) (simp_all add: prefix_space)

lemma dropWhile_not_first: "\<not> P x \<Longrightarrow> dropWhile P (x # xs) = x # xs"
  by simp

lemma opt_kw_absorb:
  assumes n: "opt_kw kws (skip f) (dropWhile is_space u) = None"
    and kws: "\<forall>kw\<in>set kws. kw \<noteq> [] \<and> \<not> is_space (hd kw)"
  shows "opt_kw kws (skip f) u = None"
proof (cases u)
  case Nil
  with n show ?thesis by simp
next
  case (Cons x xs)
  show ?thesis
  proof (cases "is_space x")
    case False
    with n Cons show ?thesis by simp
  next
    case True
    from opt_kw_None [OF n] have "skip f u = None" by (simp add: skip_idem)
    with opt_kw_space [OF kws True] Cons show ?thesis by simp
  qed
qed

lemma after_returns_absorb:
  assumes "after_returns (dropWhile is_space u) = None"
  shows "after_returns u = None"
proof (cases u)
  case Nil
  with assms show ?thesis by simp
next
  case (Cons x xs)
  show ?thesis
  proof (cases "is_space x")
    case False
    with assms Cons show ?thesis by simp
  next
    case True
    from assms have "pr brace_items (dropWhile is_space u) = None"
      by (simp add: after_returns_def or_else_None_iff)
    then have "pr brace_items u = None"
      using pr_Star_skip [of "[ILit ''{'']" u] by (simp add: brace_items_def)
    moreover from True Cons have "\<not> prefix ''returns'' u"
      using prefix_space [of "''returns''" x xs] by (simp add: is_space_def)
    then have "pr returns_items u = None"
      by (simp add: pr_def returns_items_def)
    ultimately show ?thesis by (simp add: after_returns_def)
  qed
qed

lemma K4_closed: "rem (K4 (g, p, u)) = pr brace_items u"
proof -
  have "K4 = m (rx brace_items) Some"
    by (simp add: K4_def brace_items_def del: m.simps)
  then have "rem (K4 (g, p, u)) = rem (m (rx brace_items) Some (g, p, u))" by (rule arg_cong)
  also have "\<dots> = pr brace_items u" by (rule det_rx_rem [OF det_brace])
  finally show ?thesis .
qed

lemma Kret_closed:
  "rem (m (seq [lit ''returns'', Star Space, Atom (Lit CHR ''(''), Star (Not CHR '')''),
                Atom (Lit CHR '')'')]) K4 (g, p, u)) = pr returns_items u"
proof -
  have "m (seq [lit ''returns'', Star Space, Atom (Lit CHR ''(''), Star (Not CHR '')''),
                Atom (Lit CHR '')'')]) K4 = m (rx returns_items) Some"
    by (simp add: K4_def returns_items_def brace_items_def del: m.simps lit.simps(3))
  then have "rem (m (seq [lit ''returns'', Star Space, Atom (Lit CHR ''(''), Star (Not CHR '')''),
                Atom (Lit CHR '')'')]) K4 (g, p, u)) = rem (m (rx returns_items) Some (g, p, u))"
    by (rule arg_cong)
  also have "\<dots> = pr returns_items u" by (rule det_rx_rem [OF det_returns])
  finally show ?thesis .
qed

lemma K3_closed: "rem (K3 (g, p, u)) = tail3 u"
proof -
  have "rem (star Space (m (Opt (seq [lit ''returns'', Star Space, Atom (Lit CHR ''(''),
          Star (Not CHR '')''), Atom (Lit CHR '')'')])) K4) g p u) =
        after_returns (dropWhile (in_cset Space) u)"
  proof (rule star_absorb)
    fix g p u
    show "rem (m (Opt (seq [lit ''returns'', Star Space, Atom (Lit CHR ''(''),
          Star (Not CHR '')''), Atom (Lit CHR '')'')])) K4 (g, p, u)) = after_returns u"
      unfolding rem_Opt Kret_closed K4_closed after_returns_def ..
  next
    fix u
    assume "after_returns (dropWhile (in_cset Space) u) = None"
    then show "after_returns u = None" by (simp add: after_returns_absorb)
  qed
  then show ?thesis by (simp add: K3_def tail3_def skip_def del: seq.simps lit.simps)
qed

lemma m_lit_rem:
  "rem (m (lit kw) k (g, p, u)) =
     (if prefix kw u then rem (k (g, rev kw @ p, drop (length kw) u)) else None)"
  by (simp add: m_lit)

lemma K2_closed: "rem (K2 (g, p, u)) = tail2 u"
proof -
  let ?f = "opt_kw [''view'', ''pure'', ''payable''] tail3"
  have "rem (star Space (m (Opt (alts [lit ''view'', lit ''pure'', lit ''payable''])) K3) g p u) =
        ?f (dropWhile (in_cset Space) u)"
  proof (rule star_absorb)
    fix g p u
    show "rem (m (Opt (alts [lit ''view'', lit ''pure'', lit ''payable''])) K3 (g, p, u)) = ?f u"
      by (simp add: rem_Opt rem_Alt m_lit_rem K3_closed del: m.simps lit.simps)
  next
    fix u
    assume "?f (dropWhile (in_cset Space) u) = None"
    then have "?f (dropWhile is_space u) = None" by simp
    then show "?f u = None"
      unfolding tail3_def by (rule opt_kw_absorb) (simp add: is_space_def)
  qed
  then show ?thesis by (simp add: K2_def tail2_def skip_def del: alts.simps lit.simps)
qed

lemma K1_closed: "rem (K1 (g, p, u)) = tail1 u"
proof -
  let ?f = "opt_kw [''external'', ''public'', ''internal'', ''private''] tail2"
  have "rem (star Space
          (m (Opt (alts [lit ''external'', lit ''public'', lit ''internal'', lit ''private''])) K2)
          g p u) = ?f (dropWhile (in_cset Space) u)"
  proof (rule star_absorb)
    fix g p u
    show "rem (m (Opt (alts [lit ''external'', lit ''public'', lit ''internal'',
                 lit ''private''])) K2 (g, p, u)) = ?f u"
      by (simp add: rem_Opt rem_Alt m_lit_rem K2_closed del: m.simps lit.simps)
  next
    fix u
    assume "?f (dropWhile (in_cset Space) u) = None"
    then have "?f (dropWhile is_space u) = None" by simp
    then show "?f u = None"
      unfolding tail2_def by (rule opt_kw_absorb) (simp add: is_space_def)
  qed
  then show ?thesis by (simp add: K1_def tail1_def skip_def del: alts.simps lit.simps)
qed

lemma functions_closed: "rem (attempt functions_re pre u) = fn_rem u"
proof -
  have "m (strip functions_re) Some = m (rx fn_head) K1"
    by (simp add: functions_re_def fn_head_def K1_def K2_def K3_def K4_def
        del: m.simps lit.simps(3))
  then have "rem (attempt functions_re pre u) = rem (m (rx fn_head) K1 ([], pre, u))"
    by (simp add: attempt_strip)
  also have "\<dots> = fn_rem u"
    by (cases "parse fn_head u") (auto simp: det_parse [OF det_fn_head] K1_closed fn_rem_def)
  finally show ?thesis .
qed

lemma sw_simps [simp]:
  "\<not> sp_or_word CHR ''(''" "\<not> sp_or_word CHR '')''" "\<not> sp_or_word CHR ''{''" "is_space x \<Longrightarrow> sp_or_word x" "is_word x \<Longrightarrow> sp_or_word x"
  by (simp_all add: sp_or_word_def is_space_def is_word_def)

lemma strict_prefix_single [simp]: "strict_prefix z [c] = (z = [])"
  by (cases z) (auto simp: strict_prefix_def)

lemma fn_possible_no_paren: "CHR '')'' \<notin> set y \<Longrightarrow> fn_possible (y @ v) = fn_possible v"
  by (induction y) auto

lemma sw_no_paren: "\<forall>x\<in>set w. sp_or_word x \<Longrightarrow> CHR '')'' \<notin> set w"
  by auto

lemma brace_after_sw: "\<forall>x\<in>set w. sp_or_word x \<Longrightarrow> brace_after (w @ v) = brace_after v"
  by (simp add: brace_after_def dropWhile_append2)

lemma tp_sw_append: "\<forall>x\<in>set w. sp_or_word x \<Longrightarrow> tail_possible (w @ v) = tail_possible v"
  by (simp add: tail_possible_def brace_after_sw fn_possible_no_paren [OF sw_no_paren])

lemma tp_sw_all: "\<forall>x\<in>set u. sp_or_word x \<Longrightarrow> \<not> tail_possible u"
  using tp_sw_append [of u "[]"] by (simp add: tail_possible_def brace_after_def)

lemma touched_final: "touched its u \<Longrightarrow> touched (its @ [ILit [c]]) u"
  using touched_append [of its "[]" u c] by simp

lemma transparent_touched:
  "transparent its \<Longrightarrow> touched (its @ [ILit ''#'']) u \<Longrightarrow> \<not> tail_possible u"
  by (simp add: transparent_def)

lemma transparent_parse:
  "transparent its \<Longrightarrow> parse its u = Some (a, r) \<Longrightarrow> tail_possible u = tail_possible r"
  by (simp add: transparent_def)

lemma transparent_sw:
  assumes "\<forall>i\<in>set its. \<forall>x. admits i x \<longrightarrow> sp_or_word x"
  shows "transparent its"
  unfolding transparent_def
proof (intro conjI allI impI)
  fix u
  assume t: "touched (its @ [ILit ''#'']) u"
  have "\<forall>x\<in>set u. sp_or_word x"
  proof
    fix x
    assume "x \<in> set u"
    from touched_admits [OF t this] assms show "sp_or_word x" by blast
  qed
  then show "\<not> tail_possible u" by (rule tp_sw_all)
next
  fix u a r
  assume p: "parse its u = Some (a, r)"
  have "\<forall>x\<in>set a. sp_or_word x"
  proof
    fix x
    assume "x \<in> set a"
    from parse_admits [OF p this] assms show "sp_or_word x" by blast
  qed
  with parse_text [OF p] show "tail_possible u = tail_possible r"
    by (simp add: tp_sw_append)
qed

lemma transparent_append:
  assumes a: "transparent its1" and b: "transparent its2"
  shows "transparent (its1 @ its2)"
  unfolding transparent_def
proof (intro conjI allI impI)
  fix u
  assume "touched ((its1 @ its2) @ [ILit ''#'']) u"
  then have "touched (its1 @ (its2 @ [ILit ''#''])) u" by simp
  from touched_append [OF this, of "CHR ''#''"] show "\<not> tail_possible u"
  proof
    assume "touched (its1 @ [ILit ''#'']) u"
    then show ?thesis by (rule transparent_touched [OF a])
  next
    assume "\<exists>a r. parse its1 u = Some (a, r) \<and> touched (its2 @ [ILit ''#'']) r"
    then obtain a1 r where p: "parse its1 u = Some (a1, r)"
      and t: "touched (its2 @ [ILit ''#'']) r"
      by blast
    from transparent_touched [OF b t] transparent_parse [OF a p] show ?thesis by simp
  qed
next
  fix u a' r
  assume "parse (its1 @ its2) u = Some (a', r)"
  then obtain a1 r1 a2 where p1: "parse its1 u = Some (a1, r1)"
    and p2: "parse its2 r1 = Some (a2, r)"
    by (auto simp: parse_append split: option.splits)
  from transparent_parse [OF a p1] transparent_parse [OF b p2]
  show "tail_possible u = tail_possible r" by simp
qed

lemma tp_open: "tail_possible (CHR ''('' # v) = fn_possible v"
  by (simp add: tail_possible_def brace_after_def)

lemma split_at_paren:
  assumes "dropWhile (\<lambda>x. x \<noteq> CHR '')'') v = z" and "z \<noteq> []"
  shows "\<exists>y z'. v = y @ CHR '')'' # z' \<and> z = CHR '')'' # z' \<and> CHR '')'' \<notin> set y"
proof -
  from assms hd_dropWhile [of "\<lambda>x. x \<noteq> CHR '')''" v] have "hd z = CHR '')''" by auto
  with assms(2) obtain z' where z: "z = CHR '')'' # z'" by (cases z) auto
  have "v = takeWhile (\<lambda>x. x \<noteq> CHR '')'') v @ z" using assms(1) by (metis takeWhile_dropWhile_id)
  moreover have "CHR '')'' \<notin> set (takeWhile (\<lambda>x. x \<noteq> CHR '')'') v)"
    by (auto dest: set_takeWhileD)
  ultimately show ?thesis using z by blast
qed

lemma transparent_paren: "transparent paren_items"
  unfolding transparent_def
proof (intro conjI allI impI)
  fix u
  assume t: "touched (paren_items @ [ILit ''#'']) u"
  show "\<not> tail_possible u"
  proof (cases u)
    case Nil
    then show ?thesis by (simp add: tp_sw_all)
  next
    case (Cons x v)
    with t have x: "x = CHR ''(''"
      by (auto simp: paren_items_def split: if_splits)
    show ?thesis
    proof (cases "dropWhile (\<lambda>x. x \<noteq> CHR '')'') v = []")
      case True
      then have "CHR '')'' \<notin> set v" by auto
      from fn_possible_no_paren [OF this, of "[]"] Cons x show ?thesis by (simp add: tp_open)
    next
      case False
      from split_at_paren [OF refl False] obtain y z' where
        v: "v = y @ CHR '')'' # z'" "dropWhile (\<lambda>x. x \<noteq> CHR '')'') v = CHR '')'' # z'"
        "CHR '')'' \<notin> set y"
        by blast
      from t Cons x v(2) have "z' = []"
        by (auto simp: paren_items_def split: if_splits)
      with v Cons x show ?thesis
        by (simp add: tp_open fn_possible_no_paren brace_after_def)
    qed
  qed
next
  fix u a r
  assume p: "parse paren_items u = Some (a, r)"
  then obtain v where u: "u = CHR ''('' # v"
    by (cases u) (auto simp: paren_items_def split: if_splits)
  with p have d: "dropWhile (\<lambda>x. x \<noteq> CHR '')'') v \<noteq> []"
    by (auto simp: paren_items_def split: if_splits simp del: dropWhile_eq_Nil_conv)
  from split_at_paren [OF refl d] obtain y z' where
    v: "v = y @ CHR '')'' # z'" "dropWhile (\<lambda>x. x \<noteq> CHR '')'') v = CHR '')'' # z'"
    "CHR '')'' \<notin> set y"
    by blast
  from p u v(2) have "r = z'"
    by (auto simp: paren_items_def split: if_splits)
  with u v show "tail_possible u = tail_possible r"
    by (simp add: tp_open fn_possible_no_paren) (simp add: tail_possible_def)
qed

lemma goodD1: "good f \<Longrightarrow> f (u @ t) = map_option (\<lambda>r. r @ t) (f u) \<or> \<not> tail_possible u"
  unfolding good_def by blast

lemma goodD2: "good f \<Longrightarrow> f u = Some r \<Longrightarrow> tail_possible u \<and> length r \<le> length u"
  by (simp add: good_def)

lemma or_else_lift:
  "or_else (map_option h a) (map_option h b) = map_option h (or_else a b)"
  by (cases a) simp_all

lemma good_or_else:
  assumes f: "good f" and g: "good g"
  shows "good (\<lambda>u. or_else (f u) (g u))"
  unfolding good_def
proof (rule conjI; intro allI impI)
  fix u t
  from goodD1 [OF f, of u t] goodD1 [OF g, of u t]
  show "or_else (f (u @ t)) (g (u @ t)) = map_option (\<lambda>r. r @ t) (or_else (f u) (g u)) \<or>
        \<not> tail_possible u"
    by (auto simp: or_else_lift)
next
  fix u r
  assume "or_else (f u) (g u) = Some r"
  then have "f u = Some r \<or> g u = Some r" by (rule or_else_Some)
  with goodD2 [OF f] goodD2 [OF g] show "tail_possible u \<and> length r \<le> length u" by blast
qed

lemma tp_dropWhile: "tail_possible (dropWhile is_space u) = tail_possible u"
proof -
  have "tail_possible (takeWhile is_space u @ dropWhile is_space u) =
        tail_possible (dropWhile is_space u)"
    by (rule tp_sw_append) (auto dest: set_takeWhileD)
  then show ?thesis by simp
qed

lemma good_skip:
  assumes f: "good f"
  shows "good (skip f)"
  unfolding good_def
proof (rule conjI; intro allI impI)
  fix u t
  show "skip f (u @ t) = map_option (\<lambda>r. r @ t) (skip f u) \<or> \<not> tail_possible u"
  proof (cases rule: dropWhile_cases [where u = u and P = is_space and t = t])
    case all
    then have "\<forall>x\<in>set u. sp_or_word x" by simp
    then show ?thesis by (simp add: tp_sw_all)
  next
    case (stop y ys)
    with goodD1 [OF f, of "y # ys" t] tp_dropWhile [of u] show ?thesis
      by (simp add: skip_def)
  qed
next
  fix u r
  assume "skip f u = Some r"
  then have "f (dropWhile is_space u) = Some r" by (simp add: skip_def)
  from goodD2 [OF f this] tp_dropWhile [of u] length_dropWhile_le [of is_space u]
  show "tail_possible u \<and> length r \<le> length u" by simp
qed

lemma good_kw:
  assumes f: "good f" and kw: "\<forall>x\<in>set kw. is_word x"
  shows "good (\<lambda>u. if prefix kw u then f (drop (length kw) u) else None)"
  unfolding good_def
proof (rule conjI; intro allI impI)
  fix u t
  show "(if prefix kw (u @ t) then f (drop (length kw) (u @ t)) else None) =
          map_option (\<lambda>r. r @ t) (if prefix kw u then f (drop (length kw) u) else None) \<or>
        \<not> tail_possible u"
  proof (cases "prefix kw u")
    case True
    then obtain v where u: "u = kw @ v" by (auto simp: prefix_def)
    from kw have "tail_possible (kw @ v) = tail_possible v" by (intro tp_sw_append) simp
    with goodD1 [OF f, of v t] u show ?thesis by auto
  next
    case False
    show ?thesis
    proof (cases "prefix kw (u @ t)")
      case True
      with False have "prefix u kw" using prefix_append_cases by blast
      with kw have "\<forall>x\<in>set u. sp_or_word x" by (auto simp: prefix_def)
      then show ?thesis by (simp add: tp_sw_all)
    next
      case f: False
      with False show ?thesis by simp
    qed
  qed
next
  fix u r
  assume a: "(if prefix kw u then f (drop (length kw) u) else None) = Some r"
  then have p: "prefix kw u" and s: "f (drop (length kw) u) = Some r"
    by (simp_all split: if_splits)
  from p obtain v where u: "u = kw @ v" by (auto simp: prefix_def)
  from kw have "tail_possible (kw @ v) = tail_possible v" by (intro tp_sw_append) simp
  with goodD2 [OF f, of v r] s u show "tail_possible u \<and> length r \<le> length u" by simp
qed

lemma good_opt_kw:
  assumes f: "good f" and kws: "\<forall>kw\<in>set kws. \<forall>x\<in>set kw. is_word x"
  shows "good (opt_kw kws f)"
  using kws
proof (induction kws)
  case Nil
  have "opt_kw [] f = f" by (rule ext) simp
  with f show ?case by simp
next
  case (Cons kw kws)
  then have a: "good (\<lambda>u. if prefix kw u then f (drop (length kw) u) else None)"
    and b: "good (opt_kw kws f)"
    by (simp_all add: good_kw [OF f])
  have "opt_kw (kw # kws) f =
        (\<lambda>u. or_else (if prefix kw u then f (drop (length kw) u) else None) (opt_kw kws f u))"
    by (rule ext) simp
  with good_or_else [OF a b] show ?case by simp
qed

lemma brace_parse:
  assumes "parse brace_items r1 = Some (a, r)"
  shows "brace_after r1"
proof -
  from assms obtain a1 r2 a2 where p1: "parse [IStar Space] r1 = Some (a1, r2)"
    and p2: "parse [ILit ''{''] r2 = Some (a2, r)"
    unfolding brace_items_def by (auto simp: parse_append split: option.splits)
  from p2 obtain v where r2: "r2 = CHR ''{'' # v" by (cases r2) (auto split: if_splits)
  have "\<forall>x\<in>set a1. sp_or_word x"
  proof
    fix x
    assume "x \<in> set a1"
    from parse_admits [OF p1 this] show "sp_or_word x" by simp
  qed
  with parse_text [OF p1] r2 show ?thesis
    by (simp add: brace_after_sw) (simp add: brace_after_def)
qed

lemma good_items:
  assumes tr: "transparent its"
  shows "good (pr (its @ brace_items))"
  unfolding good_def
proof (rule conjI; intro allI impI)
  fix u t
  from parse_ext [of "its @ brace_items" u t]
  show "pr (its @ brace_items) (u @ t) = map_option (\<lambda>r. r @ t) (pr (its @ brace_items) u) \<or>
        \<not> tail_possible u"
  proof
    assume "parse (its @ brace_items) (u @ t) = lift_pair t (parse (its @ brace_items) u)"
    then show ?thesis
      by (cases "parse (its @ brace_items) u") (auto simp: pr_def)
  next
    assume "touched (its @ brace_items) u"
    from touched_append [OF this, of "CHR ''#''"] show ?thesis
    proof
      assume "touched (its @ [ILit ''#'']) u"
      from transparent_touched [OF tr this] show ?thesis by simp
    next
      assume "\<exists>a r. parse its u = Some (a, r) \<and> touched brace_items r"
      then obtain a r where p: "parse its u = Some (a, r)" and t: "touched brace_items r"
        by blast
      have "\<forall>x\<in>set r. sp_or_word x"
      proof
        fix x
        assume "x \<in> set r"
        from touched_admits [OF t [unfolded brace_items_def] this] show "sp_or_word x" by simp
      qed
      with transparent_parse [OF tr p] show ?thesis by (simp add: tp_sw_all)
    qed
  qed
next
  fix u r
  assume "pr (its @ brace_items) u = Some r"
  then obtain a where p: "parse (its @ brace_items) u = Some (a, r)"
    by (auto simp: pr_def)
  then obtain a1 r1 a2 where p1: "parse its u = Some (a1, r1)"
    and p2: "parse brace_items r1 = Some (a2, r)"
    by (auto simp: parse_append split: option.splits)
  from brace_parse [OF p2] have "tail_possible r1" by (simp add: tail_possible_def)
  with transparent_parse [OF tr p1] parse_text [OF p]
  show "tail_possible u \<and> length r \<le> length u" by simp
qed

lemma transparent_Nil: "transparent []"
  by (rule transparent_sw) simp

lemma good_brace: "good (pr brace_items)"
  using good_items [OF transparent_Nil] by simp

lemma good_returns: "good (pr returns_items)"
proof -
  have "transparent [ILit ''returns'', IStar Space]"
    by (rule transparent_sw) (auto simp: is_word_def)
  from transparent_append [OF this transparent_paren]
  have "transparent ([ILit ''returns'', IStar Space] @ paren_items)" .
  from good_items [OF this] show ?thesis
    by (simp add: returns_items_def paren_items_def)
qed

lemma good_tail3: "good tail3"
  unfolding tail3_def
proof (rule good_skip)
  have "after_returns = (\<lambda>u. or_else (pr returns_items u) (pr brace_items u))"
    by (rule ext) (simp add: after_returns_def)
  with good_or_else [OF good_returns good_brace] show "good after_returns" by simp
qed

lemma good_tail2: "good tail2"
  unfolding tail2_def
  by (rule good_skip, rule good_opt_kw [OF good_tail3]) (auto simp: is_word_def)

lemma good_tail1: "good tail1"
  unfolding tail1_def
  by (rule good_skip, rule good_opt_kw [OF good_tail2]) (auto simp: is_word_def)

lemma fn_head_split: "fn_head = fn_start @ paren_items"
  by (simp add: fn_head_def fn_start_def paren_items_def)

lemma transparent_fn_start: "transparent fn_start"
  unfolding fn_start_def by (rule transparent_sw) (auto simp: is_word_def)

lemma transparent_fn_head: "transparent fn_head"
  unfolding fn_head_split by (rule transparent_append [OF transparent_fn_start transparent_paren])

lemma fn_head_not_brace:
  assumes "parse fn_head u = Some (a, r)"
  shows "\<not> brace_after u"
proof -
  from assms obtain a0 r0 a1 where p0: "parse fn_start u = Some (a0, r0)"
    and p1: "parse paren_items r0 = Some (a1, r)"
    by (auto simp: fn_head_split parse_append split: option.splits)
  from p1 obtain v where r0: "r0 = CHR ''('' # v"
    by (cases r0) (auto simp: paren_items_def split: if_splits)
  have "\<forall>x\<in>set a0. sp_or_word x"
  proof
    fix x
    assume "x \<in> set a0"
    from parse_admits [OF p0 this] show "sp_or_word x" by (auto simp: fn_start_def is_word_def)
  qed
  with parse_text [OF p0] r0 show ?thesis
    by (simp add: brace_after_sw) (simp add: brace_after_def)
qed

lemma fn_rem_Some:
  assumes "fn_rem u = Some r'"
  shows "fn_possible u \<and> length r' < length u"
proof -
  from assms obtain a r where p: "parse fn_head u = Some (a, r)" and t: "tail1 r = Some r'"
    by (auto simp: fn_rem_def split: option.splits)
  from goodD2 [OF good_tail1 t] have tp: "tail_possible r" and le: "length r' \<le> length r"
    by simp_all
  from transparent_parse [OF transparent_fn_head p] tp fn_head_not_brace [OF p]
  have "fn_possible u" by (simp add: tail_possible_def)
  moreover from parse_final [OF p [unfolded fn_head_def]] parse_text [OF p] le
  have "length r' < length u" by auto
  ultimately show ?thesis ..
qed

lemma fn_rem_ext:
  "fn_rem (u @ t) = map_option (\<lambda>r. r @ t) (fn_rem u) \<or> \<not> fn_possible u"
proof (cases "touched fn_head u")
  case True
  from transparent_touched [OF transparent_fn_head touched_final [OF True]]
  show ?thesis by (simp add: tail_possible_def)
next
  case False
  with parse_ext [of fn_head u t]
  have e: "parse fn_head (u @ t) = lift_pair t (parse fn_head u)" by simp
  show ?thesis
  proof (cases "parse fn_head u")
    case None
    with e show ?thesis by (simp add: fn_rem_def)
  next
    case (Some ar)
    obtain a r where ar: "ar = (a, r)" by (cases ar)
    from goodD1 [OF good_tail1, of r t] show ?thesis
    proof
      assume "tail1 (r @ t) = map_option (\<lambda>r. r @ t) (tail1 r)"
      with Some ar e show ?thesis by (simp add: fn_rem_def)
    next
      assume "\<not> tail_possible r"
      with transparent_parse [OF transparent_fn_head Some [unfolded ar]]
      show ?thesis by (simp add: tail_possible_def)
    qed
  qed
qed

lemma functions_mono:
  "length (findall functions_re code) \<le> length (findall functions_re (code @ extra))"
  unfolding findall_def
proof (rule finditer_mono [where NC = fn_possible])
  fix pre rest
  from fn_rem_ext [of rest extra]
  show "rem (attempt functions_re pre (rest @ extra)) =
          map_option (\<lambda>r'. r' @ extra) (rem (attempt functions_re pre rest)) \<or>
        \<not> fn_possible rest \<or>
        (\<exists>r'. rem (attempt functions_re pre rest) = Some r' \<and> \<not> fn_possible r' \<and>
              attempt functions_re pre (rest @ extra) \<noteq> None)"
    by (auto simp: functions_closed)
next
  show "\<forall>pre u. attempt functions_re pre u \<noteq> None \<longrightarrow> fn_possible u"
  proof (intro allI impI)
    fix pre u
    assume "attempt functions_re pre u \<noteq> None"
    then have "rem (attempt functions_re pre u) \<noteq> None" by (simp add: rem_None_iff)
    then obtain r' where "fn_rem u = Some r'" by (auto simp: functions_closed)
    from fn_rem_Some [OF this] show "fn_possible u" ..
  qed
next
  show "\<forall>x xs. fn_possible xs \<longrightarrow> fn_possible (x # xs)" by simp
next
  fix pre u r'
  assume "rem (attempt functions_re pre u) = Some r'"
  then have "fn_rem u = Some r'" by (simp add: functions_closed)
  from fn_rem_Some [OF this] show "length r' < length u" ..
qed

subsection \<open>Index reads and writes found in a longer text\<close>

text \<open>
  The number of reads can go down: in \<open>t[3]\<close> the index expression is a read, in
  \<open>t[3] =\<close> it is a write. Every index expression that the scan for \<open>index_expr_re\<close>
  finds is found by exactly one of the scans for reads and for writes, so reads plus writes
  is the number of index expressions, which does not go down, as the number of writes.
\<close>

lemma finditer_scan_count:
  assumes "\<And>pre u. rem (attempt r pre u) = f u"
  shows "length (finditer r pre u) = scan_count f u"
proof (induction "length u" arbitrary: pre u rule: less_induct)
  case less
  show ?case
  proof (cases "attempt r pre u")
    case None
    with assms [of pre u] have f: "f u = None" by simp
    show ?thesis
    proof (cases u)
      case Nil
      with None f show ?thesis
        by (simp add: finditer.simps [of r pre "[]"] scan_count.simps [of f "[]"] attempt_def)
    next
      case (Cons x xs)
      with less [of xs "x # pre"] None f show ?thesis
        by (simp add: finditer.simps [of r pre "x # xs"] scan_count.simps [of f "x # xs"]
            attempt_def)
    qed
  next
    case (Some st)
    obtain g p r' where st: "st = (g, p, r')" by (cases st)
    with Some assms [of pre u] have f: "f u = Some r'" by simp
    show ?thesis
    proof (cases "length r' < length u")
      case True
      with less [OF True, of p] Some st f show ?thesis
        by (simp add: finditer.simps [of r pre u] scan_count.simps [of f u] attempt_def)
    next
      case False
      show ?thesis
      proof (cases u)
        case Nil
        with False Some st f show ?thesis
          by (simp add: finditer.simps [of r pre "[]"] scan_count.simps [of f "[]"] attempt_def)
      next
        case (Cons x xs)
        with less [of xs "x # pre"] False Some st f show ?thesis
          by (simp add: finditer.simps [of r pre "x # xs"] scan_count.simps [of f "x # xs"]
              attempt_def)
      qed
    qed
  qed
qed

lemma scan_count_None: "f (x # xs) = None \<Longrightarrow> scan_count f (x # xs) = scan_count f xs"
  by (simp add: scan_count.simps [of f "x # xs"])

lemma scan_count_Nil: "f [] = None \<Longrightarrow> scan_count f [] = 0"
  by (simp add: scan_count.simps [of f "[]"])

lemma scan_count_Some:
  "f u = Some r \<Longrightarrow> length r < length u \<Longrightarrow> scan_count f u = Suc (scan_count f r)"
  by (simp add: scan_count.simps [of f u])

lemma scan_skip_word:
  assumes "\<And>wb. wb \<noteq> [] \<Longrightarrow> \<forall>x\<in>set wb. is_word x \<Longrightarrow> f (wb @ v) = None"
    and "\<forall>x\<in>set w. is_word x"
  shows "scan_count f (w @ v) = scan_count f v"
  using assms(2)
proof (induction w)
  case Nil
  show ?case by simp
next
  case (Cons x w)
  from Cons.prems assms(1) [of "x # w"] have "f (x # w @ v) = None" by simp
  from scan_count_None [of f x "w @ v", OF this] Cons show ?case by simp
qed

lemma scan_skip_other:
  assumes "\<And>x xs. \<not> is_word x \<Longrightarrow> f (x # xs) = None"
    and "\<forall>x\<in>set s. \<not> is_word x"
  shows "scan_count f (s @ v) = scan_count f v"
  using assms(2)
proof (induction s)
  case Nil
  show ?case by simp
next
  case (Cons x s)
  from Cons.prems assms(1) [of x "s @ v"] have "f (x # s @ v) = None" by simp
  from scan_count_None [of f x "s @ v", OF this] Cons show ?case by simp
qed

lemma det_index: "det index_items"
  by (simp add: index_items_def is_space_def is_word_def)

lemma det_eq: "det eq_items"
  by (simp add: eq_items_def)

lemma det_index_eq: "det (index_items @ eq_items)"
  by (simp add: index_items_def eq_items_def is_space_def is_word_def)

lemma index_expr_closed: "rem (attempt index_expr_re pre u) = pr index_items u"
proof -
  have "\<And>st. m index_expr_re Some st = m (rx index_items) Some st"
    by (simp add: index_expr_re_def index_items_def)
  from det_rem [OF this det_index] show ?thesis by (simp add: pr_def)
qed

lemma index_write_closed: "rem (attempt index_write_re pre u) = write_rem u"
proof -
  have "\<And>st. m index_write_re Some st = m (rx (index_items @ eq_items)) Some st"
    by (simp add: index_write_re_def index_items_def eq_items_def)
  from det_rem [OF this det_index_eq]
  have "rem (attempt index_write_re pre u) = pr (index_items @ eq_items) u"
    by (simp add: pr_def)
  also have "\<dots> = write_rem u"
    by (cases "parse index_items u"; cases "parse eq_items (snd (the (parse index_items u)))")
       (auto simp: pr_def write_rem_def parse_append)
  finally show ?thesis .
qed

lemma not_ahead_closed:
  "m (NotAhead (Seq (Star Space) (Atom (Lit CHR ''='')))) Some (g, p, r) =
     (if pr eq_items r = None then Some (g, p, r) else None)"
proof -
  have "m (Seq (Star Space) (Atom (Lit CHR ''=''))) Some = m (rx eq_items) Some"
    by (simp add: eq_items_def del: m.simps)
  then have "rem (m (Seq (Star Space) (Atom (Lit CHR ''=''))) Some (g, p, r)) =
             rem (m (rx eq_items) Some (g, p, r))"
    by (rule arg_cong)
  also have "\<dots> = pr eq_items r" by (rule det_rx_rem [OF det_eq])
  finally have "m (Seq (Star Space) (Atom (Lit CHR ''=''))) Some (g, p, r) = None \<longleftrightarrow>
                pr eq_items r = None"
    by (metis rem_None_iff)
  then show ?thesis
    by (cases "m (Seq (Star Space) (Atom (Lit CHR ''=''))) Some (g, p, r)")
       (auto simp del: m.simps simp add: m.simps(10))
qed

lemma mapping_reads_closed: "rem (attempt mapping_reads_re pre u) = read_rem u"
proof -
  have "attempt mapping_reads_re pre u =
        m (rx index_items) (m (NotAhead (Seq (Star Space) (Atom (Lit CHR ''='')))) Some)
          ([], pre, u)"
    by (simp add: attempt_def mapping_reads_re_def index_items_def del: m.simps)
  also note det_parse [OF det_index]
  finally show ?thesis
    by (cases "parse index_items u")
       (auto simp: not_ahead_closed read_rem_def pr_def simp del: m.simps)
qed

lemma pr_word_run:
  assumes "wb \<noteq> []" and "\<forall>x\<in>set wb. is_word x" and "v = [] \<or> \<not> is_word (hd v)"
  shows "pr (IPlus Word # its) (wb @ v) = pr its v"
proof -
  from assms(2,3) have t: "takeWhile is_word (wb @ v) = wb" and d: "dropWhile is_word (wb @ v) = v"
    by (cases v; simp)+
  from assms(1,2) have "is_word (hd (wb @ v))" by (cases wb) auto
  with assms(1) t d show ?thesis
    by (cases "parse its v") (auto simp: pr_def)
qed

lemma pr_space_run:
  assumes "\<forall>x\<in>set s. is_space x" and "v = [] \<or> \<not> is_space (hd v)"
  shows "pr (IStar Space # its) (s @ v) = pr its v"
proof -
  from assms have "dropWhile is_space (s @ v) = v"
    by (cases v; simp)
  then show ?thesis
    by (cases "parse its v") (auto simp: pr_def)
qed

lemma index_nonword: "\<not> is_word x \<Longrightarrow> pr index_items (x # xs) = None"
  by (simp add: pr_def index_items_def)

lemma index_inside:
  assumes "wb \<noteq> []" and "\<forall>x\<in>set wb. is_word x" and "\<forall>x\<in>set s3. is_space x"
  shows "pr index_items (wb @ s3 @ CHR '']'' # r) = None"
proof -
  have nw: "s3 @ CHR '']'' # r = [] \<or> \<not> is_word (hd (s3 @ CHR '']'' # r))"
    using assms(3) word_not_space by (cases s3) (auto simp: is_word_def)
  have "pr index_items (wb @ s3 @ CHR '']'' # r) =
        pr (IStar Space # ILit ''['' # [IStar Space, IPlus Word, IStar Space, ILit '']''])
          (s3 @ CHR '']'' # r)"
    unfolding index_items_def using pr_word_run [OF assms(1,2) nw] by simp
  also have "\<dots> = pr (ILit ''['' # [IStar Space, IPlus Word, IStar Space, ILit '']''])
                     (CHR '']'' # r)"
    by (rule pr_space_run [OF assms(3)]) (simp add: is_space_def)
  also have "\<dots> = None" by (simp add: pr_def)
  finally show ?thesis .
qed

lemma parse_Plus_shape:
  assumes "parse (IPlus c # its) u = Some (a, r)"
  shows "\<exists>w v a'. u = w @ v \<and> w \<noteq> [] \<and> (\<forall>x\<in>set w. in_cset c x) \<and>
           (v = [] \<or> \<not> in_cset c (hd v)) \<and> parse its v = Some (a', r)"
proof -
  from assms have ne: "u \<noteq> []" and h: "in_cset c (hd u)" by (auto split: if_splits)
  with assms obtain a' where p: "parse its (dropWhile (in_cset c) u) = Some (a', r)" by auto
  from ne h have "takeWhile (in_cset c) u \<noteq> []" by (cases u) auto
  moreover have "\<forall>x\<in>set (takeWhile (in_cset c) u). in_cset c x" by (auto dest: set_takeWhileD)
  moreover have "dropWhile (in_cset c) u = [] \<or> \<not> in_cset c (hd (dropWhile (in_cset c) u))"
    using hd_dropWhile [of "in_cset c" u] by blast
  moreover have "u = takeWhile (in_cset c) u @ dropWhile (in_cset c) u" by simp
  ultimately show ?thesis using p by blast
qed

lemma parse_Star_shape:
  assumes "parse (IStar c # its) u = Some (a, r)"
  shows "\<exists>w v a'. u = w @ v \<and> (\<forall>x\<in>set w. in_cset c x) \<and>
           (v = [] \<or> \<not> in_cset c (hd v)) \<and> parse its v = Some (a', r)"
proof -
  from assms obtain a' where p: "parse its (dropWhile (in_cset c) u) = Some (a', r)" by auto
  have "\<forall>x\<in>set (takeWhile (in_cset c) u). in_cset c x" by (auto dest: set_takeWhileD)
  moreover have "dropWhile (in_cset c) u = [] \<or> \<not> in_cset c (hd (dropWhile (in_cset c) u))"
    using hd_dropWhile [of "in_cset c" u] by blast
  moreover have "u = takeWhile (in_cset c) u @ dropWhile (in_cset c) u" by simp
  ultimately show ?thesis using p by blast
qed

lemma parse_Lit_shape:
  assumes "parse (ILit kw # its) u = Some (a, r)"
  shows "\<exists>v a'. u = kw @ v \<and> parse its v = Some (a', r)"
  using assms by (auto split: if_splits simp: prefix_def)

lemma index_shape:
  assumes "parse index_items u = Some (a, r)"
  shows "\<exists>w1 s1 s2 w2 s3. u = w1 @ (s1 @ CHR ''['' # s2) @ w2 @ (s3 @ [CHR '']'']) @ r \<and>
           w1 \<noteq> [] \<and> w2 \<noteq> [] \<and> (\<forall>x\<in>set w1. is_word x) \<and> (\<forall>x\<in>set w2. is_word x) \<and>
           (\<forall>x\<in>set s1. is_space x) \<and> (\<forall>x\<in>set s2. is_space x) \<and> (\<forall>x\<in>set s3. is_space x)"
proof -
  have p0: "parse (IPlus Word # [IStar Space, ILit ''['', IStar Space, IPlus Word, IStar Space,
      ILit '']'']) u = Some (a, r)"
    using assms by (simp only: index_items_def append.simps)
  from parse_Plus_shape [OF p0]
  obtain w1 v1 a1 where 1: "u = w1 @ v1" "w1 \<noteq> []" "\<forall>x\<in>set w1. in_cset Word x"
    and p1: "parse (IStar Space # [ILit ''['', IStar Space, IPlus Word, IStar Space, ILit '']'']) v1 =
             Some (a1, r)"
    by blast
  from parse_Star_shape [OF p1]
  obtain s1 v2 a2 where 2: "v1 = s1 @ v2" "\<forall>x\<in>set s1. in_cset Space x"
    and p2: "parse (ILit ''['' # [IStar Space, IPlus Word, IStar Space, ILit '']'']) v2 =
             Some (a2, r)"
    by blast
  from parse_Lit_shape [OF p2]
  obtain v3 a3 where 3: "v2 = ''['' @ v3"
    and p3: "parse (IStar Space # [IPlus Word, IStar Space, ILit '']'']) v3 = Some (a3, r)"
    by blast
  from parse_Star_shape [OF p3]
  obtain s2 v4 a4 where 4: "v3 = s2 @ v4" "\<forall>x\<in>set s2. in_cset Space x"
    and p4: "parse (IPlus Word # [IStar Space, ILit '']'']) v4 = Some (a4, r)"
    by blast
  from parse_Plus_shape [OF p4]
  obtain w2 v5 a5 where 5: "v4 = w2 @ v5" "w2 \<noteq> []" "\<forall>x\<in>set w2. in_cset Word x"
    and p5: "parse (IStar Space # [ILit '']'']) v5 = Some (a5, r)"
    by blast
  from parse_Star_shape [OF p5]
  obtain s3 v6 a6 where 6: "v5 = s3 @ v6" "\<forall>x\<in>set s3. in_cset Space x"
    and p6: "parse (ILit '']'' # []) v6 = Some (a6, r)"
    by blast
  from parse_Lit_shape [OF p6] have 7: "v6 = '']'' @ r" by auto
  have "u = w1 @ (s1 @ CHR ''['' # s2) @ w2 @ (s3 @ [CHR '']'']) @ r"
    by (simp add: 1(1) 2(1) 3 4(1) 5(1) 6(1) 7)
  with 1(2,3) 2(2) 4(2) 5(2,3) 6(2) show ?thesis
    by (simp only: in_cset_funs) blast
qed

lemma bracket_not_word [simp]: "\<not> is_word CHR ''[''" "\<not> is_word CHR '']''"
  by (simp_all add: is_word_def)

lemma region_skip:
  assumes fdef: "\<And>u. f u = (case pr index_items u of None \<Rightarrow> None | Some r \<Rightarrow> F r)"
    and p: "parse index_items u = Some (a, r)"
    and n: "f u = None"
  shows "scan_count f u = scan_count f r"
proof -
  from index_shape [OF p] obtain w1 s1 s2 w2 s3 where
    u: "u = w1 @ (s1 @ CHR ''['' # s2) @ w2 @ (s3 @ [CHR '']'']) @ r"
    and w1: "w1 \<noteq> []" "\<forall>x\<in>set w1. is_word x"
    and w2: "w2 \<noteq> []" "\<forall>x\<in>set w2. is_word x"
    and s: "\<forall>x\<in>set s1. is_space x" "\<forall>x\<in>set s2. is_space x" "\<forall>x\<in>set s3. is_space x"
    by blast
  let ?v1 = "(s1 @ CHR ''['' # s2) @ w2 @ (s3 @ [CHR '']'']) @ r"
  let ?its = "[IStar Space, ILit ''['', IStar Space, IPlus Word, IStar Space, ILit '']'']"
  have nw: "\<And>x xs. \<not> is_word x \<Longrightarrow> f (x # xs) = None"
    by (simp add: fdef index_nonword)
  have v1: "?v1 = [] \<or> \<not> is_word (hd ?v1)"
    using s(1) by (cases s1) (auto dest: space_not_word)
  have "scan_count f (w1 @ ?v1) = scan_count f ?v1"
  proof (rule scan_skip_word [where f = f, OF _ w1(2)])
    fix wb :: string
    assume wb: "wb \<noteq> []" "\<forall>x\<in>set wb. is_word x"
    have "pr index_items (wb @ ?v1) = pr ?its ?v1"
      unfolding index_items_def using pr_word_run [OF wb v1] by simp
    also have "\<dots> = pr index_items (w1 @ ?v1)"
      unfolding index_items_def using pr_word_run [OF w1 v1] by simp
    finally show "f (wb @ ?v1) = None" using n u by (simp add: fdef)
  qed
  also have "scan_count f ?v1 = scan_count f (w2 @ (s3 @ [CHR '']'']) @ r)"
    by (rule scan_skip_other [where f = f, OF nw]) (use s in \<open>auto dest: space_not_word\<close>)
  also have "\<dots> = scan_count f ((s3 @ [CHR '']'']) @ r)"
  proof (rule scan_skip_word [where f = f, OF _ w2(2)])
    fix wb :: string
    assume wb: "wb \<noteq> []" "\<forall>x\<in>set wb. is_word x"
    from index_inside [OF wb s(3), of r] show "f (wb @ (s3 @ [CHR '']'']) @ r) = None"
      by (simp add: fdef)
  qed
  also have "\<dots> = scan_count f r"
    by (rule scan_skip_other [where f = f, OF nw]) (use s in \<open>auto dest: space_not_word\<close>)
  finally show ?thesis using u by simp
qed

lemma eq_shape:
  assumes "pr eq_items r = Some r2"
  shows "\<exists>sp. r = (sp @ ''='') @ r2 \<and> (\<forall>x\<in>set sp. is_space x)"
proof -
  from assms obtain a where p: "parse ([IStar Space, ILit ''='']) r = Some (a, r2)"
    by (auto simp: pr_def eq_items_def)
  from parse_Star_shape [OF p] obtain sp v a' where
    1: "r = sp @ v" "\<forall>x\<in>set sp. is_space x" and p1: "parse [ILit ''=''] v = Some (a', r2)"
    by auto
  from parse_Lit_shape [OF p1] have "v = ''='' @ r2" by auto
  with 1 show ?thesis by auto
qed

lemma reads_writes_count:
  "scan_count read_rem u + scan_count write_rem u = scan_count (pr index_items) u"
proof (induction "length u" arbitrary: u rule: less_induct)
  case less
  have rd: "\<And>u. read_rem u = (case pr index_items u of None \<Rightarrow> None
      | Some r \<Rightarrow> if pr eq_items r = None then Some r else None)"
    by (simp add: read_rem_def)
  have wd: "\<And>u. write_rem u = (case pr index_items u of None \<Rightarrow> None | Some r \<Rightarrow> pr eq_items r)"
    by (simp add: write_rem_def)
  have id: "\<And>u. pr index_items u = (case pr index_items u of None \<Rightarrow> None | Some r \<Rightarrow> Some r)"
    by (simp split: option.splits)
  show ?case
  proof (cases "parse index_items u")
    case None
    then have n: "pr index_items u = None" "read_rem u = None" "write_rem u = None"
      by (simp_all add: pr_def read_rem_def write_rem_def)
    show ?thesis
    proof (cases u)
      case Nil
      with n show ?thesis by (simp add: scan_count_Nil)
    next
      case (Cons x xs)
      with n less [of xs] show ?thesis by (simp add: scan_count_None)
    qed
  next
    case (Some ar)
    obtain a r where ar: "ar = (a, r)" by (cases ar)
    with Some have p: "parse index_items u = Some (a, r)" by simp
    then have b: "pr index_items u = Some r" by (simp add: pr_def)
    from parse_final [OF p [unfolded index_items_def]] parse_text [OF p]
    have len: "length r < length u" by auto
    from b len have cb: "scan_count (pr index_items) u = Suc (scan_count (pr index_items) r)"
      by (rule scan_count_Some)
    show ?thesis
    proof (cases "pr eq_items r")
      case None
      with b have "read_rem u = Some r" by (simp add: read_rem_def)
      from scan_count_Some [where f = read_rem, OF this len]
      have cr: "scan_count read_rem u = Suc (scan_count read_rem r)" .
      from None b have "write_rem u = None" by (simp add: write_rem_def)
      from region_skip [OF wd p this] have cw: "scan_count write_rem u = scan_count write_rem r" .
      from less [OF len] cb cr cw show ?thesis by simp
    next
      case (Some r2)
      from eq_shape [OF Some] obtain sp where
        r: "r = (sp @ ''='') @ r2" and sp: "\<forall>x\<in>set sp. is_space x"
        by blast
      have ns: "\<forall>x\<in>set (sp @ ''=''). \<not> is_word x"
        using sp by (auto dest: space_not_word)
      from r len have len2: "length r2 < length u" by simp
      from Some b have "write_rem u = Some r2" by (simp add: write_rem_def)
      from scan_count_Some [where f = write_rem, OF this len2]
      have cw: "scan_count write_rem u = Suc (scan_count write_rem r2)" .
      from Some b have "read_rem u = None" by (simp add: read_rem_def)
      from region_skip [OF rd p this] have "scan_count read_rem u = scan_count read_rem r" .
      also have "\<dots> = scan_count read_rem r2"
        unfolding r by (rule scan_skip_other [where f = read_rem, OF _ ns])
          (simp add: read_rem_def index_nonword)
      finally have cr: "scan_count read_rem u = scan_count read_rem r2" .
      have "scan_count (pr index_items) r = scan_count (pr index_items) r2"
        unfolding r by (rule scan_skip_other [where f = "pr index_items", OF _ ns])
          (simp add: index_nonword)
      with cb have cb2: "scan_count (pr index_items) u = Suc (scan_count (pr index_items) r2)"
        by simp
      from less [OF len2] cb2 cr cw show ?thesis by simp
    qed
  qed
qed

lemma index_expr_mono:
  "length (findall index_expr_re code) \<le> length (findall index_expr_re (code @ extra))"
  unfolding findall_def
  by (rule det_mono [where c = "CHR '']''" and
        its = "[IPlus Word, IStar Space, ILit ''['', IStar Space, IPlus Word, IStar Space]"])
     (simp_all add: index_expr_re_def is_space_def is_word_def)

lemma reads_writes_findall:
  "length (findall mapping_reads_re code) + length (findall index_write_re code) =
   length (findall index_expr_re code)"
  unfolding findall_def
  using reads_writes_count [of code]
  by (simp add: finditer_scan_count [where f = read_rem, OF mapping_reads_closed]
      finditer_scan_count [where f = write_rem, OF index_write_closed]
      finditer_scan_count [where f = "pr index_items", OF index_expr_closed])

lemma mapping_cost_mono:
  "int (length (findall mapping_reads_re code)) * 800 +
   int (length (findall index_write_re code)) * 20000 \<le>
   int (length (findall mapping_reads_re (code @ extra))) * 800 +
   int (length (findall index_write_re (code @ extra))) * 20000"
  using reads_writes_findall [of code] reads_writes_findall [of "code @ extra"]
    index_expr_mono [of code extra] index_write_mono [of code extra]
  by linarith

subsection \<open>The cost of each category\<close>

text \<open>
  The counter of expensive operations is a sum over the loop bodies, and the cost of a
  category is given by the match counts of its detector.
\<close>

lemma count_expensive_sum: "count_expensive loops n = n + sum_list (map loop_score loops)"
  by (induction loops arbitrary: n) (simp_all add: Let_def loop_score_def)

lemma loop_score_sum_nonneg: "0 \<le> sum_list (map loop_score loops)"
  by (induction loops) (simp_all add: loop_score_def)

lemma loops_cost_mono:
  assumes "prefix F F'" and "prefix W W'"
  shows "(len F + len W) * 1000 + count_expensive (map g F @ map g W) 0 * 10000 \<le>
         (len F' + len W') * 1000 + count_expensive (map g F' @ map g W') 0 * 10000"
proof -
  from assms obtain X Y where x: "F' = F @ X" "W' = W @ Y" by (auto simp: prefix_def)
  from loop_score_sum_nonneg [of "map g X"] loop_score_sum_nonneg [of "map g Y"]
  show ?thesis by (simp add: x count_expensive_sum len_def)
qed

lemma hotspot_pairs:
  "map (\<lambda>h. (h_type h, estimated_cost h)) (gas_hotspots (detectors init code)) =
     [(STORAGE_USAGE,
       len (findall storage_vars_re code) * 20000 + len (findall storage_writes_re code) * 5000)] @
     (if findall for_loops_re code \<noteq> [] \<or> findall while_loops_re code \<noteq> []
      then [(LOOP_OPERATIONS,
             (len (findall for_loops_re code) + len (findall while_loops_re code)) * 1000 +
             count_expensive (map (\<lambda>g. group g 1) (findall for_loops_re code) @
                              map (\<lambda>g. group g 1) (findall while_loops_re code)) 0 * 10000)]
      else []) @
     [(FUNCTION_CALLS,
       len (findall functions_re code) * 500 + len (findall external_calls_re code) * 700 +
       len (findall delegate_calls_re code) * 700)] @
     (if len (findall array_push_re code) + len (findall array_pop_re code) +
         len (findall array_access_re code) > 0
      then [(ARRAY_OPERATIONS,
             len (findall array_push_re code) * 20000 + len (findall array_pop_re code) * 5000 +
             len (findall array_access_re code) * 800)]
      else []) @
     (if len (findall mapping_reads_re code) + len (findall index_write_re code) > 0
      then [(MAPPING_OPERATIONS,
             len (findall mapping_reads_re code) * 800 +
             len (findall index_write_re code) * 20000)]
      else [])"
  by (simp add: detectors_def analyze_mapping_operations_def analyze_array_operations_def
      analyze_function_patterns_def analyze_loop_patterns_def analyze_storage_usage_def
      init_def Let_def len_def)

lemma category_cost_pairs:
  "sum_list (map estimated_cost (filter (\<lambda>h. h_type h = ty) hs)) =
   sum_list (map snd (filter (\<lambda>p. fst p = ty) (map (\<lambda>h. (h_type h, estimated_cost h)) hs)))"
  by (induction hs) simp_all

lemma category_cost_analyze:
  "category_cost ty (analyze code now path) =
     (case ty of
        STORAGE_USAGE \<Rightarrow>
          len (findall storage_vars_re code) * 20000 + len (findall storage_writes_re code) * 5000
      | LOOP_OPERATIONS \<Rightarrow>
          (len (findall for_loops_re code) + len (findall while_loops_re code)) * 1000 +
          count_expensive (map (\<lambda>g. group g 1) (findall for_loops_re code) @
                           map (\<lambda>g. group g 1) (findall while_loops_re code)) 0 * 10000
      | FUNCTION_CALLS \<Rightarrow>
          len (findall functions_re code) * 500 + len (findall external_calls_re code) * 700 +
          len (findall delegate_calls_re code) * 700
      | ARRAY_OPERATIONS \<Rightarrow>
          len (findall array_push_re code) * 20000 + len (findall array_pop_re code) * 5000 +
          len (findall array_access_re code) * 800
      | MAPPING_OPERATIONS \<Rightarrow>
          len (findall mapping_reads_re code) * 800 + len (findall index_write_re code) * 20000)"
proof -
  have "category_cost ty (analyze code now path) =
      sum_list (map snd (filter (\<lambda>p. fst p = ty)
        (map (\<lambda>h. (h_type h, estimated_cost h)) (gas_hotspots (detectors init code)))))"
    by (simp add: category_cost_def analyze_def generate_gas_report_def Let_def
        category_cost_pairs)
  also note hotspot_pairs
  finally show ?thesis
    by (cases ty) (auto simp: len_def)
qed


section \<open>The claims\<close>


text \<open>
  C2. The estimated cost of the loop hotspot is (loops) * 1000 + (expensive loops) * 10000
  when each loop adds at most one to the expensive loops. A single \<open>for\<close> loop with one
  dotted call in its body gives 11000 and HIGH, as claimed. A single \<open>for\<close> loop whose
  body has both an indexed assignment and a dotted call adds two: the two tests are
  separate \<open>if\<close> statements, and the description reads \<open>Found 1 loops, 2 with expensive
  operations\<close> with the estimated cost 21000, where the claim gives 11000.
\<close>

theorem C2_expensive_loop_counted_twice:
  "gas_hotspots (analyze_loop_patterns init ''for(i){a.b();}'') =
     [\<lparr>h_type = LOOP_OPERATIONS, severity = HIGH,
       h_description = ''Found 1 loops, 1 with expensive operations'',
       estimated_cost = 11000,
       h_optimization = ''Minimize storage operations and external calls in loops''\<rparr>] \<and>
   gas_hotspots (analyze_loop_patterns init ''for(i){a[i]=b.c();}'') =
     [\<lparr>h_type = LOOP_OPERATIONS, severity = HIGH,
       h_description = ''Found 1 loops, 2 with expensive operations'',
       estimated_cost = 21000,
       h_optimization = ''Minimize storage operations and external calls in loops''\<rparr>]"
proof -
  have "gas_hotspots (analyze_loop_patterns init ''for(i){a.b();}'') =
     [\<lparr>h_type = LOOP_OPERATIONS, severity = HIGH,
       h_description = ''Found 1 loops, 1 with expensive operations'',
       estimated_cost = 11000,
       h_optimization = ''Minimize storage operations and external calls in loops''\<rparr>]"
    by code_simp
  moreover have "gas_hotspots (analyze_loop_patterns init ''for(i){a[i]=b.c();}'') =
     [\<lparr>h_type = LOOP_OPERATIONS, severity = HIGH,
       h_description = ''Found 1 loops, 2 with expensive operations'',
       estimated_cost = 21000,
       h_optimization = ''Minimize storage operations and external calls in loops''\<rparr>]"
    by code_simp
  ultimately show ?thesis by simp
qed

theorem C2_expensive_loop_counted_twice_witness:
  "map estimated_cost (gas_hotspots (analyze_loop_patterns init ''for(i){a[i]=b.c();}'')) =
     [1 * 1000 + 2 * 10000]"
  using C2_expensive_loop_counted_twice by simp


text \<open>
  C4. The analysis of the empty text reports the two unconditional hotspots only, both
  with cost 0 (none for loops, arrays or mappings), no optimization at all (so none for
  visibility, error style, events or struct packing), and the efficiency score 100.
\<close>

theorem C4_empty_source:
  "map h_type (report_gas_hotspots (analyze [] now path)) = [STORAGE_USAGE, FUNCTION_CALLS] \<and>
   map estimated_cost (report_gas_hotspots (analyze [] now path)) = [0, 0] \<and>
   report_optimizations (analyze [] now path) = [] \<and>
   efficiency_score (summary (analyze [] now path)) = 100"
proof -
  have "map h_type (report_gas_hotspots (analyze [] now path)) = [STORAGE_USAGE, FUNCTION_CALLS]"
    by code_simp
  moreover have "map estimated_cost (report_gas_hotspots (analyze [] now path)) = [0, 0]"
    by code_simp
  moreover have "report_optimizations (analyze [] now path) = []"
    by code_simp
  moreover have "efficiency_score (summary (analyze [] now path)) = 100"
    by code_simp
  ultimately show ?thesis by simp
qed



text \<open>
  C6. For every source text, the empty one included, every estimated cost of a hotspot
  and every gas saving of an optimization of the report is at least 0.
\<close>

theorem C6_nonneg_costs_savings:
  "(\<forall>h \<in> set (report_gas_hotspots (analyze code now path)). 0 \<le> estimated_cost h) \<and>
   (\<forall>s \<in> set (report_optimizations (analyze code now path)). 0 \<le> gas_savings s)"
  using costs_detectors [OF nonneg_init(1), of code] savings_detectors [OF nonneg_init(2), of code]
  by (simp add: analyze_def generate_gas_report_def costs_nonneg_def savings_nonneg_def
      list_all_iff Let_def)

theorem C6_nonneg_costs_savings_witness:
  "report_gas_hotspots (analyze ''x = 1;'' [] []) \<noteq> [] \<and>
   report_optimizations (analyze ''x = 1;'' [] []) \<noteq> [] \<and>
   0 \<le> estimated_cost (hd (report_gas_hotspots (analyze ''x = 1;'' [] []))) \<and>
   0 \<le> gas_savings (hd (report_optimizations (analyze ''x = 1;'' [] [])))"
proof -
  have h: "report_gas_hotspots (analyze ''x = 1;'' [] []) \<noteq> []"
    by code_simp
  have s: "report_optimizations (analyze ''x = 1;'' [] []) \<noteq> []"
    by code_simp
  from h s C6_nonneg_costs_savings [of "''x = 1;''" "[]" "[]"] show ?thesis
    by (simp add: hd_in_set)
qed

text \<open>
  C7. Appending any text to the source, for example one more assignment statement, one more
  loop or one more call, never decreases the estimated cost of any category of the report:
  the storage, loop, function-call, array and mapping costs of the longer text are at least
  those of the shorter one. For the mapping category the number of reads alone can go down
  (a read that the appended text turns into a write), the cost cannot.
\<close>

theorem C7_category_cost_monotone:
  "category_cost ty (analyze code now path) \<le>
   category_cost ty (analyze (code @ extra) now path)"
proof (cases ty)
  case STORAGE_USAGE
  with vars_mono [of code extra] writes_mono [of code extra] show ?thesis
    by (simp add: category_cost_analyze len_def)
next
  case LOOP_OPERATIONS
  with loops_cost_mono [OF for_loops_prefix [of code extra] while_loops_prefix [of code extra]]
  show ?thesis by (simp add: category_cost_analyze)
next
  case FUNCTION_CALLS
  with functions_mono [of code extra] external_calls_mono [of code extra]
    delegate_calls_mono [of code extra]
  show ?thesis by (simp add: category_cost_analyze len_def)
next
  case ARRAY_OPERATIONS
  with array_push_mono [of code extra] array_pop_mono [of code extra]
    array_access_mono [of code extra]
  show ?thesis by (simp add: category_cost_analyze len_def)
next
  case MAPPING_OPERATIONS
  with mapping_cost_mono [of code extra] show ?thesis
    by (simp add: category_cost_analyze len_def)
qed



text \<open>
  C9. The constant-candidate detector is to give one optimization of 2300 for each
  statement that assigns a literal (hex, decimal, boolean or quoted string) to a variable
  assigned only once. On \<open>name = "hello";\<close> it gives none: in the pattern the quoted
  string stands between two \<open>\b\<close>, and there is no word boundary between a blank and a
  quotation mark. On \<open>x = y + 1;\<close> it gives one, the right-hand side only containing a
  literal; on \<open>x = 1; x = 2;\<close> it gives two for the same variable.
\<close>

theorem C9_constant_candidates:
  "optimizations (check_constant_variables init
      (''name = '' @ [CHR 0x22] @ ''hello'' @ [CHR 0x22] @ '';'')) = [] \<and>
   map gas_savings (optimizations (check_constant_variables init ''x = y + 1;'')) = [2300] \<and>
   map gas_savings (optimizations (check_constant_variables init ''x = 1; x = 2;'')) =
     [2300, 2300] \<and>
   map gas_savings (optimizations (check_constant_variables init ''x = 1;'')) = [2300]"
proof -
  have "optimizations (check_constant_variables init
      (''name = '' @ [CHR 0x22] @ ''hello'' @ [CHR 0x22] @ '';'')) = []"
    by code_simp
  moreover have
    "map gas_savings (optimizations (check_constant_variables init ''x = y + 1;'')) = [2300]"
    by code_simp
  moreover have
    "map gas_savings (optimizations (check_constant_variables init ''x = 1; x = 2;'')) =
       [2300, 2300]"
    by code_simp
  moreover have
    "map gas_savings (optimizations (check_constant_variables init ''x = 1;'')) = [2300]"
    by code_simp
  ultimately show ?thesis by simp
qed

text \<open>
  C10. For every source text the hotspot sequence of the report starts with the
  \<open>STORAGE_USAGE\<close> record and contains a \<open>FUNCTION_CALLS\<close> record, so that the hotspot
  count is at least 2, and its types are a subsequence of storage, loops, functions,
  arrays, mappings: each type at most once, in this order.
\<close>

theorem C10_hotspot_order:
  "hd (map h_type (report_gas_hotspots (analyze code now path))) = STORAGE_USAGE \<and>
   FUNCTION_CALLS \<in> set (map h_type (report_gas_hotspots (analyze code now path))) \<and>
   2 \<le> hotspot_count (summary (analyze code now path)) \<and>
   subseq (map h_type (report_gas_hotspots (analyze code now path))) detector_order"
proof -
  have r: "report_gas_hotspots (analyze code now path) = gas_hotspots (detectors init code)"
    by (simp add: analyze_def generate_gas_report_def Let_def)
  have c: "hotspot_count (summary (analyze code now path)) =
      int (length (map h_type (gas_hotspots (detectors init code))))"
    by (simp add: analyze_def generate_gas_report_def Let_def len_def)
  show ?thesis
    unfolding r c detectors_types detector_order_def
    by (simp add: init_def)
qed

end
